theory Spec2Isabelle
  imports Complex_Main "HOL-Library.Sublist" "HOL-Library.Multiset"
begin

section \<open>Data model (src/modules/PackageManager.ts)\<close>

text \<open>
  A JavaScript value as far as the package records can hold one in their
  \<open>latestVersion\<close> slot: \<open>undefined\<close>, a string, or a member inherited from
  \<open>Object.prototype\<close> (a function, or the prototype object itself for the key
  \<open>__proto__\<close>), which is what reading a plain object \<open>{}\<close> at such a key gives.
\<close>

datatype jsvalue = Undefined | Str string | ProtoMember string

text \<open>JavaScript truthiness of such a value: \<open>undefined\<close> and the empty string are falsy.\<close>

fun truthy :: "jsvalue \<Rightarrow> bool" where
  "truthy Undefined = False"
| "truthy (Str s) = (s \<noteq> [])"
| "truthy (ProtoMember k) = True"

text \<open>
  \<open>interface PackageInfo { name: string; version?: string; latestVersion?: string }\<close>.
  \<open>PackageVersionInfo\<close> is the same record with \<open>version\<close> present.
\<close>

record PackageInfo =
  name :: string
  version :: "string option"
  latestVersion :: jsvalue

text \<open>
  An element of the JSON array printed by \<open>pip list --outdated --format json\<close>, as
  \<open>mergePackageListWithUpdate\<close> reads it: the fields \<open>name\<close> and \<open>latest_version\<close>.
\<close>

record OutdatedInfo =
  entry_name :: string
  latest_version :: "string option"

section \<open>Strings\<close>

text \<open>
  \<open>String.prototype.split(sep)\<close> for a non-empty separator: the pieces between the
  successive non-overlapping occurrences of \<open>sep\<close>, scanning from the left. The second
  argument is the piece read so far, reversed.
\<close>

function split_from :: "string \<Rightarrow> string \<Rightarrow> string \<Rightarrow> string list" where
  "split_from sep cur [] = [rev cur]"
| "split_from sep cur (c # cs) =
     (if sep \<noteq> [] \<and> prefix sep (c # cs)
      then rev cur # split_from sep [] (drop (length sep) (c # cs))
      else split_from sep (c # cur) cs)"
  by pat_completeness auto
termination
  by (relation "measure (\<lambda>(sep, cur, s). length s)") (auto simp: neq_Nil_conv)

definition js_split :: "string \<Rightarrow> string \<Rightarrow> string list" where
  "js_split sep s = split_from sep [] s"

section \<open>mergePackageListWithUpdate\<close>

text \<open>
  The names every plain object inherits from \<open>Object.prototype\<close>. Reading
  \<open>latestVersionMap[k]\<close> for such a \<open>k\<close> that was never assigned gives the inherited
  member, not \<open>undefined\<close>.
\<close>

definition object_prototype_members :: "string list" where
  "object_prototype_members =
     [''constructor'', ''__defineGetter__'', ''__defineSetter__'', ''hasOwnProperty'',
      ''__lookupGetter__'', ''__lookupSetter__'', ''isPrototypeOf'',
      ''propertyIsEnumerable'', ''toString'', ''valueOf'', ''__proto__'',
      ''toLocaleString'']"

text \<open>
  \<open>const latestVersionMap: Record<string, string> = {}\<close> is a plain object: its own
  properties are a map, a read falls back to the prototype, and an assignment to
  \<open>__proto__\<close> of a value that is no object (a string or \<open>undefined\<close> here) is ignored
  by the prototype's setter.
\<close>

definition obj_get :: "(string \<rightharpoonup> jsvalue) \<Rightarrow> string \<Rightarrow> jsvalue" where
  "obj_get own k =
     (case own k of
        Some v \<Rightarrow> v
      | None \<Rightarrow> if k \<in> set object_prototype_members then ProtoMember k else Undefined)"

definition obj_set :: "(string \<rightharpoonup> jsvalue) \<Rightarrow> string \<Rightarrow> jsvalue \<Rightarrow> (string \<rightharpoonup> jsvalue)" where
  "obj_set own k v = (if k = ''__proto__'' then own else own(k \<mapsto> v))"

definition field_value :: "string option \<Rightarrow> jsvalue" where
  "field_value f = (case f of None \<Rightarrow> Undefined | Some s \<Rightarrow> Str s)"

text \<open>The \<open>forEach\<close> that fills the map: later entries overwrite earlier ones.\<close>

definition latestVersionMap :: "OutdatedInfo list \<Rightarrow> (string \<rightharpoonup> jsvalue)" where
  "latestVersionMap updateInfo =
     fold (\<lambda>info m. obj_set m (entry_name info) (field_value (latest_version info)))
       updateInfo Map.empty"

definition mergePackageListWithUpdate ::
    "PackageInfo list \<Rightarrow> OutdatedInfo list \<Rightarrow> PackageInfo list" where
  "mergePackageListWithUpdate packInfo updateInfo =
     (if updateInfo \<noteq> [] then
        map (\<lambda>info.
              let latest = obj_get (latestVersionMap updateInfo) (name info)
              in if truthy latest then info\<lparr>latestVersion := latest\<rparr> else info)
          packInfo
      else packInfo)"

section \<open>createPackageInfo\<close>

text \<open>The argument \<open>pack: string | PackageInfo\<close>.\<close>

datatype pack = Token string | Structured PackageInfo

text \<open>
  \<open>const [name, version] = pack.split('=='); out = { name, version: version || undefined }\<close>
  for a string, a copy of the record otherwise; \<open>null\<close> when \<open>out.name\<close> is falsy.
\<close>

definition createPackageInfo :: "pack \<Rightarrow> PackageInfo option" where
  "createPackageInfo p =
     (let out =
        (case p of
           Token s \<Rightarrow>
             (case js_split ''=='' s of
                [] \<Rightarrow> \<lparr>name = [], version = None, latestVersion = Undefined\<rparr>
              | [n] \<Rightarrow> \<lparr>name = n, version = None, latestVersion = Undefined\<rparr>
              | n # v # _ \<Rightarrow>
                  \<lparr>name = n, version = (if v \<noteq> [] then Some v else None),
                   latestVersion = Undefined\<rparr>)
         | Structured info \<Rightarrow> info)
      in if name out = [] then None else Some out)"

text \<open>
  The \<open>toString\<close> installed on the result:
  \<open>`${out.name}${out.version ? `==${out.version}` : ''}`\<close>.
\<close>

definition toString :: "PackageInfo \<Rightarrow> string" where
  "toString out =
     name out @ (case version out of
                   Some v \<Rightarrow> if v \<noteq> [] then ''=='' @ v else []
                 | None \<Rightarrow> [])"

text \<open>
  The package specs the round-trip property is stated for: a name is valid when it is
  not empty and holds no \<open>=\<close> (no distribution name does), a version when it is not
  empty and does not hold the separator \<open>==\<close>.
\<close>

definition valid_name :: "string \<Rightarrow> bool" where
  "valid_name n \<longleftrightarrow> n \<noteq> [] \<and> CHR ''='' \<notin> set n"

definition valid_version :: "string \<Rightarrow> bool" where
  "valid_version v \<longleftrightarrow> v \<noteq> [] \<and> \<not> sublist ''=='' v"

section \<open>execute: running the package manager as a child process\<close>

text \<open>
  What the child process and the cancellation token deliver to the handlers that
  \<open>execute\<close> registers: the \<open>error\<close> event, a chunk of standard output or of standard
  error, the token's cancellation, and the \<open>close\<close> event with the exit code, which is
  \<open>null\<close> (here \<open>None\<close>) when the process was terminated by a signal.
\<close>

datatype proc_event =
    ProcError string
  | StdoutData string
  | StderrData string
  | CancellationRequested
  | Close "int option"

text \<open>The promise \<open>execute\<close> returns; a rejection carries the message and the \<open>code\<close>.\<close>

datatype promise = Pending | Resolved string | Rejected string "int option"

text \<open>\<open>resolve\<close> and \<open>reject\<close> settle a promise once; later calls change nothing.\<close>

definition settle :: "promise \<Rightarrow> promise \<Rightarrow> promise" where
  "settle new old = (if old = Pending then new else old)"

text \<open>
  The variables of one call: \<open>out\<close>, \<open>errMsg\<close>, the lines appended to the output
  channel, the promise, and how often \<open>p.kill()\<close> was called.
\<close>

record exec_state =
  out :: string
  errMsg :: string
  output_lines :: "string list"
  result :: promise
  kills :: nat

fun join_with :: "string \<Rightarrow> string list \<Rightarrow> string" where
  "join_with sep [] = []"
| "join_with sep [x] = x"
| "join_with sep (x # y # ys) = x @ sep @ join_with sep (y # ys)"

text \<open>The handlers, in the order the source registers them.\<close>

definition on_error :: "string \<Rightarrow> exec_state \<Rightarrow> exec_state" where
  "on_error msg s =
     s\<lparr>output_lines := output_lines s @ [''Process error: '' @ msg],
       result := settle (Rejected (''Failed to execute python: '' @ msg
                   @ ''. Make sure Python is installed and selected.'') None) (result s)\<rparr>"

definition on_cancel :: "exec_state \<Rightarrow> exec_state" where
  "on_cancel s = s\<lparr>output_lines := output_lines s @ [''cancel command''], kills := kills s + 1\<rparr>"

definition on_stdout :: "string \<Rightarrow> exec_state \<Rightarrow> exec_state" where
  "on_stdout data s = s\<lparr>output_lines := output_lines s @ [data], out := out s @ data\<rparr>"

definition on_stderr :: "string \<Rightarrow> exec_state \<Rightarrow> exec_state" where
  "on_stderr data s =
     (if \<not> prefix ''WARNING'' data
      then s\<lparr>output_lines := output_lines s @ [data], errMsg := errMsg s @ data\<rparr>
      else s)"

text \<open>\<open>if (!code)\<close> holds for the exit code \<open>0\<close> and for \<open>null\<close>.\<close>

definition on_close :: "int option \<Rightarrow> exec_state \<Rightarrow> exec_state" where
  "on_close code s =
     (let s' = s\<lparr>output_lines := output_lines s @ ['''']\<rparr>
      in if code = None \<or> code = Some 0
         then s'\<lparr>result := settle (Resolved (out s')) (result s')\<rparr>
         else s'\<lparr>result := settle
                   (Rejected (if errMsg s' \<noteq> [] then errMsg s' else ''Command failed'') code)
                   (result s')\<rparr>)"

text \<open>
  The cancellation listener is registered only when a token was passed
  (\<open>if (cancelToken)\<close>).
\<close>

definition on_event :: "bool \<Rightarrow> proc_event \<Rightarrow> exec_state \<Rightarrow> exec_state" where
  "on_event has_token e s =
     (case e of
        ProcError msg \<Rightarrow> on_error msg s
      | StdoutData data \<Rightarrow> on_stdout data s
      | StderrData data \<Rightarrow> on_stderr data s
      | CancellationRequested \<Rightarrow> if has_token then on_cancel s else s
      | Close code \<Rightarrow> on_close code s)"

text \<open>
  \<open>execute(command, args, cancelToken)\<close>: the invocation is logged, the process is
  spawned (\<open>spawn_throws = Some msg\<close> when \<open>spawn\<close> itself throws: the promise is
  rejected and no handler is registered), and the events are handled as they arrive.
\<close>

definition execute ::
    "string \<Rightarrow> string list \<Rightarrow> bool \<Rightarrow> string option \<Rightarrow> proc_event list \<Rightarrow> exec_state" where
  "execute command args has_token spawn_throws events =
     (let s0 = \<lparr>out = [], errMsg = [],
                output_lines = [''exec '' @ command @ '' '' @ join_with '' '' args],
                result = Pending, kills = 0\<rparr>
      in case spawn_throws of
           Some msg \<Rightarrow> s0\<lparr>result := Rejected (''Failed to start process: '' @ msg) None\<rparr>
         | None \<Rightarrow> fold (on_event has_token) events s0)"

text \<open>A chunk of standard error that starts with the marker.\<close>

definition warning_chunk :: "proc_event \<Rightarrow> bool" where
  "warning_chunk e = (case e of StderrData data \<Rightarrow> prefix ''WARNING'' data | _ \<Rightarrow> False)"

definition stderr_chunks :: "proc_event list \<Rightarrow> string list" where
  "stderr_chunks events = concat (map (\<lambda>e. case e of StderrData data \<Rightarrow> [data] | _ \<Rightarrow> []) events)"

section \<open>removePackage\<close>

definition necessaryPackage :: "string list" where
  "necessaryPackage = [''pip'', ''setuptools'', ''wheel'']"

text \<open>
  The environment of a \<open>pip\<close> call: the configured interpreter path (empty when none is
  configured: the \<open>pythonPath\<close> getter throws) and what running an argument vector
  gives, the rejection's message or the standard output. A call returns its outcome and
  the command lines it has run.
\<close>

type_synonym runner = "string \<Rightarrow> string list \<Rightarrow> string + string"

definition pip :: "string \<Rightarrow> runner \<Rightarrow> string list \<Rightarrow> (string + string) \<times> (string \<times> string list) list" where
  "pip pythonPath run args =
     (if pythonPath = []
      then (Inl (''No Python interpreter configured. ''
                 @ ''Please select a Python interpreter using the Python extension.''), [])
      else (run pythonPath ([''-m'', ''pip''] @ args), [(pythonPath, [''-m'', ''pip''] @ args)]))"

text \<open>
  \<open>removePackage(pack)\<close>: \<open>Invalid Name\<close> is thrown for a spec without a name, a
  protected name returns at once, any other name is uninstalled. The promise of the
  \<open>async\<close> function carries no value (\<open>unit\<close>) however it is fulfilled.
\<close>

definition removePackage ::
    "string \<Rightarrow> runner \<Rightarrow> pack \<Rightarrow> (string + unit) \<times> (string \<times> string list) list" where
  "removePackage pythonPath run p =
     (case createPackageInfo p of
        None \<Rightarrow> (Inl ''Invalid Name'', [])
      | Some info \<Rightarrow>
          if name info \<in> set necessaryPackage then (Inr (), [])
          else (case pip pythonPath run [''uninstall'', name info, ''-y''] of
                  (Inl err, cmds) \<Rightarrow> (Inl err, cmds)
                | (Inr _, cmds) \<Rightarrow> (Inr (), cmds)))"

text \<open>
  The command \<open>pydep-pilot.removePackage\<close> of \<open>extension.ts\<close>, with \<open>checkRemovePackage\<close>
  inlined: the name comes from the argument or, when that is missing or empty, from the
  input box (\<open>input_box\<close>, empty when dismissed). It returns \<open>false\<close> for an empty name
  and for a protected one, without calling \<open>removePackage\<close>; \<open>true\<close> after a removal.
\<close>

definition removePackageCommand ::
    "string \<Rightarrow> runner \<Rightarrow> string option \<Rightarrow> string
       \<Rightarrow> (string + bool) \<times> (string \<times> string list) list" where
  "removePackageCommand pythonPath run name_arg input_box =
     (let value = (case name_arg of
                     None \<Rightarrow> input_box
                   | Some n \<Rightarrow> if n = [] then input_box else n)
      in if \<not> (value \<noteq> [] \<and> hd (js_split ''=='' value) \<notin> set necessaryPackage)
         then (Inr False, [])
         else (case removePackage pythonPath run (Token value) of
                 (Inl err, cmds) \<Rightarrow> (Inl err, cmds)
               | (Inr _, cmds) \<Rightarrow> (Inr True, cmds)))"

text \<open>A runner under which every command succeeds, for the concrete runs below.\<close>

definition succeeding_runner :: runner where
  "succeeding_runner python args = Inr ''Successfully uninstalled''"

section \<open>Numbers\<close>

text \<open>
  A JavaScript number as \<open>searchFromPyPi\<close> meets it: \<open>NaN\<close>, a finite value or an
  infinity. \<open>number_truthy\<close> is the test of \<open>x || 1\<close>, \<open>number_less\<close> the comparison
  \<open>x < page\<close> with a finite \<open>page\<close>, and \<open>at_least\<close> says that a number is no less than a
  finite one.
\<close>

datatype jsnumber = NaN | Num real | PosInfinity | NegInfinity

fun number_truthy :: "jsnumber \<Rightarrow> bool" where
  "number_truthy NaN = False"
| "number_truthy (Num x) = (x \<noteq> 0)"
| "number_truthy PosInfinity = True"
| "number_truthy NegInfinity = True"

fun number_less :: "jsnumber \<Rightarrow> real \<Rightarrow> bool" where
  "number_less NaN p = False"
| "number_less (Num x) p = (x < p)"
| "number_less PosInfinity p = False"
| "number_less NegInfinity p = True"

fun at_least :: "jsnumber \<Rightarrow> real \<Rightarrow> bool" where
  "at_least NaN p = False"
| "at_least (Num x) p = (p \<le> x)"
| "at_least PosInfinity p = True"
| "at_least NegInfinity p = False"

text \<open>Decimal digits and the number a string of digits denotes.\<close>

definition is_digit :: "char \<Rightarrow> bool" where
  "is_digit c \<longleftrightarrow> c \<in> set ''0123456789''"

definition digit_value :: "char \<Rightarrow> nat" where
  "digit_value c = of_char c - 48"

definition parse_digits :: "string \<Rightarrow> nat" where
  "parse_digits s = foldl (\<lambda>n c. 10 * n + digit_value c) 0 s"

text \<open>
  The builtin \<open>Number\<close> is a parameter of the model. For the concrete runs it is taken
  on the texts a pagination control holds: a non-empty string of decimal digits is its
  value, a text that is no numeric literal (such as \<open>Next\<close>) is \<open>NaN\<close>.
\<close>

definition Number_of_text :: "string \<Rightarrow> jsnumber" where
  "Number_of_text s =
     (if s \<noteq> [] \<and> list_all is_digit s then Num (real (parse_digits s)) else NaN)"

section \<open>searchFromPyPi\<close>

text \<open>
  What \<open>xml2js\<close> (with \<open>explicitArray: false\<close>) gives for the children of one tag name:
  nothing (\<open>undefined\<close>), the child itself when there is one, an array when there are
  several.
\<close>

datatype 'a xml_children = NoChild | OneChild 'a | Children "'a list"

text \<open>
  A result item as read from \<open>item.a.h3.span[0]._\<close>, \<open>item.a.h3.span[1]._\<close> and
  \<open>item.a.p._\<close>, and the quick-pick item built from it.
\<close>

record result_item =
  item_name :: string
  item_version :: string
  item_describe :: string

record PackagePickItem =
  pick_name :: string
  pick_version :: string
  alwaysShow :: bool
  label :: string
  description :: string
  detail :: string

definition pick_item :: "result_item \<Rightarrow> PackagePickItem" where
  "pick_item item =
     \<lparr>pick_name = item_name item, pick_version = item_version item, alwaysShow = True,
      label = item_name item, description = item_version item, detail = item_describe item\<rparr>"

text \<open>
  The response body as the two regular expressions and the parser see it: the list
  items of the result block (\<open>None\<close> when the body has no result block) and the text
  \<open>_\<close> of every anchor of the pagination block (\<open>None\<close> when the body has no
  pagination block; the text of an anchor is \<open>None\<close> when the parsed anchor has no
  \<open>_\<close>).
\<close>

record search_body =
  result_block :: "result_item xml_children option"
  pagination_block :: "string option xml_children option"

datatype search_error = RequestFailed | NoResult | TypeError

text \<open>\<open>Number(x)\<close> for the \<open>_\<close> of an anchor: \<open>Number(undefined)\<close> is \<open>NaN\<close>.\<close>

definition number_of :: "(string \<Rightarrow> jsnumber) \<Rightarrow> string option \<Rightarrow> jsnumber" where
  "number_of Number text = (case text of None \<Rightarrow> NaN | Some s \<Rightarrow> Number s)"

text \<open>
  \<open>searchFromPyPi(keyword, page)\<close>, from the response on (\<open>None\<close>: the request failed).
  \<open>result.ul.li.forEach\<close> and \<open>pagination.div.a[pagination.div.a.length - 2]._\<close> are
  defined on arrays; on anything else they raise a \<open>TypeError\<close>, as the read at index
  \<open>length - 2\<close> does when the array is shorter than two.
\<close>

definition searchFromPyPi ::
    "(string \<Rightarrow> jsnumber) \<Rightarrow> search_body option \<Rightarrow> real
       \<Rightarrow> search_error + (PackagePickItem list \<times> jsnumber)" where
  "searchFromPyPi Number response page =
     (case response of
        None \<Rightarrow> Inl RequestFailed
      | Some body \<Rightarrow>
         (case result_block body of
            None \<Rightarrow> Inl NoResult
          | Some (Children items) \<Rightarrow>
              (let list = map pick_item items in
               case pagination_block body of
                 None \<Rightarrow> Inr (list, Num 1)
               | Some (Children anchors) \<Rightarrow>
                   if 2 \<le> length anchors then
                     (let parsed = number_of Number (anchors ! (length anchors - 2));
                          totalPages = (if number_truthy parsed then parsed else Num 1)
                      in Inr (list, if number_less totalPages page then Num page else totalPages))
                   else Inl TypeError
               | Some _ \<Rightarrow> Inl TypeError)
          | Some _ \<Rightarrow> Inl TypeError))"

text \<open>A result item for the concrete runs below.\<close>

definition sample_item :: result_item where
  "sample_item =
     \<lparr>item_name = ''requests'', item_version = ''2.32.3'',
      item_describe = ''Python HTTP for Humans.''\<rparr>"

section \<open>getPackageVersionList\<close>

text \<open>
  The outcome of a request to the registry: it failed (network, timeout, status,
  cancellation), or it gave a response, here reduced to the part of \<open>resp.data\<close> the
  caller reads.
\<close>

datatype 'a http = Failed | Response 'a

text \<open>
  The numbers of the version comparison are doubles: \<open>NaN\<close>, an integer a double can
  hold, or an infinity. An integer below \<open>2^53\<close> in absolute value is a double; a
  larger one is represented by the nearest integer with 53 significant bits, the even
  one of two that are equally near, and by an infinity when that is \<open>2^1024\<close> or more.
  \<open>shift_count n\<close> is the number of low bits \<open>n\<close> has beyond 53.
\<close>

datatype double = NotANumber | Whole int | PlusInfinity | MinusInfinity

function shift_count :: "int \<Rightarrow> nat" where
  "shift_count n = (if n < 2 ^ 53 then 0 else Suc (shift_count (n div 2)))"
  by pat_completeness auto
termination
  by (relation "measure nat") auto

declare shift_count.simps [simp del]

definition round_magnitude :: "int \<Rightarrow> int" where
  "round_magnitude n =
     (let e = shift_count n;
          q = n div 2 ^ e;
          r = n mod 2 ^ e;
          up = (2 ^ e < 2 * r \<or> (2 * r = 2 ^ e \<and> odd q))
      in (if up then q + 1 else q) * 2 ^ e)"

definition nearest_double :: "int \<Rightarrow> double" where
  "nearest_double k =
     (if \<bar>k\<bar> < 2 ^ 53 then Whole k
      else (let m = round_magnitude \<bar>k\<bar>
            in if m < 2 ^ 1024 then Whole (if k < 0 then - m else m)
               else if k < 0 then MinusInfinity else PlusInfinity))"

text \<open>
  \<open>x || 0\<close> on a number: \<open>NaN\<close> and 0 are falsy. \<open>x - y\<close> on doubles: the exact
  difference of two integers rounded to the nearest double, and \<open>NaN\<close> for
  \<open>Infinity - Infinity\<close>.
\<close>

fun or_zero :: "double \<Rightarrow> double" where
  "or_zero NotANumber = Whole 0"
| "or_zero (Whole k) = Whole k"
| "or_zero PlusInfinity = PlusInfinity"
| "or_zero MinusInfinity = MinusInfinity"

fun minus_double :: "double \<Rightarrow> double \<Rightarrow> double" where
  "minus_double (Whole a) (Whole b) = nearest_double (a - b)"
| "minus_double (Whole a) PlusInfinity = MinusInfinity"
| "minus_double (Whole a) MinusInfinity = PlusInfinity"
| "minus_double PlusInfinity (Whole b) = PlusInfinity"
| "minus_double PlusInfinity MinusInfinity = PlusInfinity"
| "minus_double PlusInfinity PlusInfinity = NotANumber"
| "minus_double MinusInfinity (Whole b) = MinusInfinity"
| "minus_double MinusInfinity PlusInfinity = MinusInfinity"
| "minus_double MinusInfinity MinusInfinity = NotANumber"
| "minus_double NotANumber y = NotANumber"
| "minus_double x NotANumber = NotANumber"

text \<open>
  \<open>parseInt(p.replace(/[^0-9]/g, '')) || 0\<close>: every character that is no digit is
  removed and the remaining digits are read as one integer (\<open>decimal\<close>), which
  \<open>parseInt\<close> gives as the nearest double (V8 rounds the exact value of the digits);
  no digit at all is \<open>NaN\<close>, which \<open>|| 0\<close> turns into 0.
\<close>

definition decimal :: "string \<Rightarrow> int" where
  "decimal s = foldl (\<lambda>n c. 10 * n + int (digit_value c)) 0 s"

definition parseInt :: "string \<Rightarrow> double" where
  "parseInt digits = (if digits = [] then NotANumber else nearest_double (decimal digits))"

definition component_number :: "string \<Rightarrow> double" where
  "component_number p = or_zero (parseInt (filter is_digit p))"

text \<open>\<open>a.split('.').map(...)\<close>.\<close>

definition version_parts :: "string \<Rightarrow> double list" where
  "version_parts v = map component_number (js_split ''.'' v)"

text \<open>\<open>parts[i] || 0\<close>: an index past the end reads \<open>undefined\<close>, which counts as 0.\<close>

definition part_or_zero :: "double list \<Rightarrow> nat \<Rightarrow> double" where
  "part_or_zero parts i = (if i < length parts then or_zero (parts ! i) else Whole 0)"

text \<open>
  The comparator's loop \<open>for (let i = 0; i < Math.max(partsA.length, partsB.length); i++)\<close>,
  from index \<open>i\<close> on: the first difference \<open>partsB[i] - partsA[i]\<close> with \<open>diff !== 0\<close>
  (which \<open>NaN\<close> satisfies), or 0.
\<close>

function compare_from :: "nat \<Rightarrow> double list \<Rightarrow> double list \<Rightarrow> double" where
  "compare_from i partsA partsB =
     (if i < max (length partsA) (length partsB) then
        (let diff = minus_double (part_or_zero partsB i) (part_or_zero partsA i)
         in if diff \<noteq> Whole 0 then diff else compare_from (i + 1) partsA partsB)
      else Whole 0)"
  by pat_completeness auto
termination
  by (relation "measure (\<lambda>(i, a, b). max (length a) (length b) - i)") auto

declare compare_from.simps [simp del]

definition compare_versions :: "string \<Rightarrow> string \<Rightarrow> double" where
  "compare_versions a b = compare_from 0 (version_parts a) (version_parts b)"

text \<open>
  What \<open>Array.prototype.sort\<close> makes of the comparator's value \<open>v\<close>: \<open>NaN\<close> counts as
  \<open>+0\<close>, and \<open>x\<close> is not moved behind \<open>y\<close> when \<open>v\<close> is negative or zero.
\<close>

fun keeps_before :: "double \<Rightarrow> bool" where
  "keeps_before NotANumber = True"
| "keeps_before (Whole d) = (d \<le> 0)"
| "keeps_before PlusInfinity = False"
| "keeps_before MinusInfinity = True"

text \<open>
  \<open>Array.prototype.sort\<close> with a comparator is stable: of two elements the comparator
  does not separate, the one that came first stays first. For a comparator that is a
  consistent ordering, as this one is, that fixes the result; it is computed here by
  insertion from the right.
\<close>

fun insert_by :: "('a \<Rightarrow> 'a \<Rightarrow> double) \<Rightarrow> 'a \<Rightarrow> 'a list \<Rightarrow> 'a list" where
  "insert_by cmp x [] = [x]"
| "insert_by cmp x (y # ys) =
     (if keeps_before (cmp x y) then x # y # ys else y # insert_by cmp x ys)"

definition sort_by :: "('a \<Rightarrow> 'a \<Rightarrow> double) \<Rightarrow> 'a list \<Rightarrow> 'a list" where
  "sort_by cmp xs = foldr (insert_by cmp) xs []"










text \<open>
  The comparison in the words of the specification. \<open>spec_component\<close> is the leading
  integer run of a component (its non-numeric suffix ignored, 0 when it has no leading
  digit); \<open>lex_ge a b\<close> compares two lists of integers component-wise from the left, a
  missing component counting as 0, and holds when \<open>a\<close> is not below \<open>b\<close>.
\<close>

definition spec_component :: "string \<Rightarrow> nat" where
  "spec_component p = parse_digits (takeWhile is_digit p)"

definition spec_parts :: "string \<Rightarrow> nat list" where
  "spec_parts v = map spec_component (js_split ''.'' v)"


section \<open>Refreshing the package view (src/modules/PackageWebviewProvider.ts)\<close>

text \<open>
  \<open>checkPackageLatestVersion(packageName)\<close>, from the registry's answer on. The
  response carries \<open>resp.data?.info?.version\<close>. The result is
  \<open>resp.data?.info?.version || null\<close>; every failure of the request is caught and gives
  \<open>null\<close>.
\<close>

definition checkPackageLatestVersion :: "string option http \<Rightarrow> string option" where
  "checkPackageLatestVersion response =
     (case response of
        Failed \<Rightarrow> None
      | Response v \<Rightarrow> (case v of None \<Rightarrow> None | Some s \<Rightarrow> if s \<noteq> [] then Some s else None))"

text \<open>
  The continuation of one lookup: \<open>if (latestVersion) { pkg.latestVersion = latestVersion; }\<close>.
\<close>

definition apply_latest :: "string option \<Rightarrow> PackageInfo \<Rightarrow> PackageInfo" where
  "apply_latest latest pkg =
     (case latest of
        Some v \<Rightarrow> if v \<noteq> [] then pkg\<lparr>latestVersion := Str v\<rparr> else pkg
      | None \<Rightarrow> pkg)"

text \<open>
  The messages posted to the webview: \<open>loading\<close>, \<open>packages\<close> (with \<open>data\<close> and
  \<open>hasRequirements\<close>), \<open>error\<close>, \<open>checkingUpdates\<close>, \<open>progress\<close> and
  \<open>updateComplete\<close>.
\<close>

datatype message =
    Loading bool
  | Packages "PackageInfo list" bool
  | ErrorMessage string
  | CheckingUpdates bool
  | Progress nat nat string
  | UpdateComplete

definition batchSize :: nat where
  "batchSize = 5"

text \<open>
  The text of the message the \<open>catch\<close> branch of \<open>_loadPackages\<close> posts;
  \<open>toLowerCase\<close> is taken on the ASCII letters.
\<close>

definition lower_char :: "char \<Rightarrow> char" where
  "lower_char c =
     (if c \<in> set ''ABCDEFGHIJKLMNOPQRSTUVWXYZ'' then char_of (of_char c + (32::nat)) else c)"

definition error_text :: "string \<Rightarrow> string" where
  "error_text msg =
     (let errorMessage = (if msg \<noteq> [] then msg else ''Error'');
          lowerError = map lower_char errorMessage
      in if sublist ''python'' lowerError \<or> sublist ''pip'' lowerError
            \<or> sublist ''interpreter'' lowerError
         then ''No Python interpreter selected. ''
              @ ''Please select a Python interpreter using the Python extension.''
         else ''Failed to load packages: '' @ errorMessage)"

text \<open>
  How \<open>getPackageList\<close> settles: rejected with a message, or fulfilled with a new
  array of packages.
\<close>

datatype listing = ListFailed string | Listed "PackageInfo list"

fun is_packages :: "message \<Rightarrow> bool" where
  "is_packages (Packages data hasRequirements) = True"
| "is_packages _ = False"

text \<open>\<open>xs\<close> without its element at position \<open>k\<close>.\<close>

definition without :: "nat \<Rightarrow> 'a list \<Rightarrow> 'a list" where
  "without k xs = take k xs @ drop (Suc k) xs"

text \<open>
  \<open>refresh()\<close> calls \<open>_loadPackages()\<close> and does not wait for it, so a second call can
  start while the first is suspended at an \<open>await\<close>. The provider is modelled with
  all its running invocations. An invocation (\<open>cycle\<close>) is suspended at one of its
  \<open>await\<close>s, or it has returned. \<open>Listing\<close>: it waits at
  \<open>await this.pip.getPackageList()\<close>. \<open>Searching rest\<close>: it waits at
  \<open>await vscode.workspace.fs.stat(reqFile)\<close> for a workspace folder, with \<open>rest\<close>
  further folders after it. \<open>Enriching i hasRequirements pending\<close>: it waits at
  \<open>await Promise.all(promises)\<close>, with its loop index \<open>i\<close>, its \<open>hasRequirements\<close>
  and, for every lookup of the batch that has not settled, the package object its
  continuation holds.

  A package object is addressed by the array it was listed in and its index there:
  every listing creates a new array, \<open>this._packages\<close> is a reference to one of them
  (\<open>packages_ref\<close>), and the batch of an earlier invocation may hold objects of an
  array that \<open>this._packages\<close> no longer refers to. \<open>posted\<close> holds the messages that
  \<open>_loadPackages\<close> posts, which alone writes \<open>_packages\<close> and \<open>_isLoading\<close>.
\<close>

datatype cycle = Listing | Searching nat | Enriching nat bool "(nat \<times> nat) list" | Finished

record provider =
  view :: bool
  arrays :: "PackageInfo list list"
  packages_ref :: nat
  isLoading :: bool
  posted :: "message list"
  cycles :: "cycle list"

text \<open>
  What happens to the provider: \<open>refresh()\<close> is called; the \<open>getPackageList\<close> of
  invocation \<open>c\<close> settles (with the listing, and the number of workspace folders at
  that moment, 0 when \<open>workspaceFolders\<close> is undefined); the \<open>fs.stat\<close> of invocation
  \<open>c\<close> settles (fulfilled or rejected); the pending lookup at position \<open>k\<close> of
  invocation \<open>c\<close> settles with the registry's answer.
\<close>

datatype input =
    RefreshRequested
  | ListSettled nat listing nat
  | StatSettled nat bool
  | LookupSettled nat nat "string option http"

text \<open>
  The provider once its view is resolved, before the first refresh:
  \<open>_packages = []\<close>, \<open>_isLoading = false\<close>.
\<close>

definition resolved_provider :: provider where
  "resolved_provider =
     \<lparr>view = True, arrays = [[]], packages_ref = 0, isLoading = False, posted = [], cycles = []\<rparr>"

text \<open>
  \<open>refresh()\<close>: \<open>_loadPackages\<close> returns at once without a view; otherwise it sets
  \<open>_isLoading\<close>, posts \<open>loading\<close> and suspends at \<open>await this.pip.getPackageList()\<close>.
  Nothing else is read or written: the source has no cancellation token here and
  \<open>checkPackageLatestVersion\<close> is called without one.
\<close>

definition refresh :: "provider \<Rightarrow> provider" where
  "refresh s =
     (if \<not> view s then s
      else s\<lparr>isLoading := True, posted := posted s @ [Loading True],
             cycles := cycles s @ [Listing]\<rparr>)"

text \<open>
  The head of the loop \<open>for (let i = 0; i < this._packages.length; i += batchSize)\<close>
  for invocation \<open>c\<close> at index \<open>i\<close>: it reads \<open>this._packages\<close> as it is now, takes
  \<open>this._packages.slice(i, i + batchSize)\<close> and issues the lookups of all its packages
  (\<open>batch.map\<close>) before it suspends at \<open>Promise.all\<close>; or it leaves the loop, posts
  \<open>checkingUpdates\<close> and returns.
\<close>

definition start_batch :: "nat \<Rightarrow> nat \<Rightarrow> bool \<Rightarrow> provider \<Rightarrow> provider" where
  "start_batch c i hasRequirements s =
     (let pkgs = arrays s ! packages_ref s
      in if i < length pkgs
         then s\<lparr>cycles := (cycles s)
                  [c := Enriching i hasRequirements
                          (map (\<lambda>j. (packages_ref s, j)) [i ..< min (i + batchSize) (length pkgs)])]\<rparr>
         else s\<lparr>posted := posted s @ [CheckingUpdates False],
                cycles := (cycles s)[c := Finished]\<rparr>)"

text \<open>
  From the first \<open>packages\<close> message on: \<open>this._packages\<close> is posted as it is now,
  \<open>_isLoading\<close> is reset, \<open>loading\<close> and \<open>checkingUpdates\<close> are posted and the loop
  starts.
\<close>

definition post_listing :: "nat \<Rightarrow> bool \<Rightarrow> provider \<Rightarrow> provider" where
  "post_listing c hasRequirements s =
     start_batch c 0 hasRequirements
       (s\<lparr>posted := posted s @ [Packages (arrays s ! packages_ref s) hasRequirements,
                                 Loading False, CheckingUpdates True],
          isLoading := False\<rparr>)"

text \<open>
  The listing of invocation \<open>c\<close> settles: the \<open>catch\<close> branch posts the error; else
  \<open>this._packages\<close> is assigned the new array. When that array is empty and there is a
  workspace folder, the invocation suspends at the \<open>fs.stat\<close> for the first folder;
  otherwise it goes on to the first \<open>packages\<close> message with \<open>hasRequirements = false\<close>.
\<close>

definition list_settled :: "nat \<Rightarrow> listing \<Rightarrow> nat \<Rightarrow> provider \<Rightarrow> provider" where
  "list_settled c listing folders s =
     (if c < length (cycles s) \<and> cycles s ! c = Listing then
        (case listing of
           ListFailed msg \<Rightarrow>
             s\<lparr>posted := posted s @ [ErrorMessage (error_text msg), Loading False],
               isLoading := False, cycles := (cycles s)[c := Finished]\<rparr>
         | Listed pkgs \<Rightarrow>
             (let s1 = s\<lparr>arrays := arrays s @ [pkgs], packages_ref := length (arrays s)\<rparr>
              in if pkgs = [] \<and> 0 < folders
                 then s1\<lparr>cycles := (cycles s1)[c := Searching (folders - 1)]\<rparr>
                 else post_listing c False s1))
      else s)"

text \<open>
  The \<open>fs.stat\<close> of invocation \<open>c\<close> settles: fulfilled, \<open>hasRequirements\<close> is set and the
  search ends; rejected, the next folder is looked at, or the search ends without.
\<close>

definition stat_settled :: "nat \<Rightarrow> bool \<Rightarrow> provider \<Rightarrow> provider" where
  "stat_settled c found s =
     (if c < length (cycles s) then
        (case cycles s ! c of
           Searching rest \<Rightarrow>
             if found then post_listing c True s
             else if 0 < rest then s\<lparr>cycles := (cycles s)[c := Searching (rest - 1)]\<rparr>
             else post_listing c False s
         | _ \<Rightarrow> s)
      else s)"

text \<open>
  A lookup of invocation \<open>c\<close> settles: its continuation updates its package object;
  when it was the last one pending, \<open>Promise.all\<close> is fulfilled, \<open>this._packages\<close> is
  posted and the loop goes on with \<open>i + batchSize\<close>.
\<close>

definition lookup_settled :: "nat \<Rightarrow> nat \<Rightarrow> string option http \<Rightarrow> provider \<Rightarrow> provider" where
  "lookup_settled c k response s =
     (if c < length (cycles s) then
        (case cycles s ! c of
           Enriching i hasRequirements pending \<Rightarrow>
             if k < length pending then
               (let a = fst (pending ! k);
                    j = snd (pending ! k);
                    latest = checkPackageLatestVersion response;
                    s1 = s\<lparr>arrays := (arrays s)
                             [a := (arrays s ! a)[j := apply_latest latest (arrays s ! a ! j)]]\<rparr>
                in if without k pending \<noteq> []
                   then s1\<lparr>cycles := (cycles s1)[c := Enriching i hasRequirements (without k pending)]\<rparr>
                   else start_batch c (i + batchSize) hasRequirements
                          (s1\<lparr>posted := posted s1
                                 @ [Packages (arrays s1 ! packages_ref s1) hasRequirements]\<rparr>))
             else s
         | _ \<Rightarrow> s)
      else s)"

definition step :: "input \<Rightarrow> provider \<Rightarrow> provider" where
  "step e s =
     (case e of
        RefreshRequested \<Rightarrow> refresh s
      | ListSettled c listing folders \<Rightarrow> list_settled c listing folders s
      | StatSettled c found \<Rightarrow> stat_settled c found s
      | LookupSettled c k response \<Rightarrow> lookup_settled c k response s)"

definition run_events :: "input list \<Rightarrow> provider \<Rightarrow> provider" where
  "run_events events s = fold step events s"

text \<open>
  For the statements below. \<open>in_flight\<close> counts the invocations that have not
  returned. For the invocation started last: \<open>outstanding\<close> is the number of its
  lookups that have not settled, pending or still to be issued by the length of
  \<open>this._packages\<close>; \<open>settles e s\<close> says that the event \<open>e\<close> settles one of its pending
  lookups in the state \<open>s\<close>, and \<open>settled_lookups events s\<close> counts the events of a run
  from \<open>s\<close> that do.
\<close>

definition in_flight :: "provider \<Rightarrow> nat" where
  "in_flight s = length (filter (\<lambda>c. c \<noteq> Finished) (cycles s))"

definition outstanding :: "provider \<Rightarrow> nat" where
  "outstanding s =
     (if cycles s = [] then 0
      else (case last (cycles s) of
              Enriching i hasRequirements pending \<Rightarrow>
                length pending + (length (arrays s ! packages_ref s) - (i + batchSize))
            | _ \<Rightarrow> 0))"

definition settles :: "input \<Rightarrow> provider \<Rightarrow> bool" where
  "settles e s =
     (case e of
        LookupSettled c k response \<Rightarrow>
          cycles s \<noteq> [] \<and> c = length (cycles s) - 1
          \<and> (case last (cycles s) of
                Enriching i hasRequirements pending \<Rightarrow> k < length pending
              | _ \<Rightarrow> False)
      | _ \<Rightarrow> False)"

fun settled_lookups :: "input list \<Rightarrow> provider \<Rightarrow> nat" where
  "settled_lookups [] s = 0"
| "settled_lookups (e # events) s =
     (if settles e s then 1 else 0) + settled_lookups events (step e s)"

text \<open>
  What holds of the provider while one invocation runs and no other is in flight:
  the invocations \<open>before\<close> it have returned, \<open>this._packages\<close> is the array \<open>r\<close> it
  listed, of \<open>n\<close> packages, and \<open>m\<close> \<open>packages\<close> messages had been posted when it
  started. It searches for \<open>requirements.txt\<close> (nothing is installed and no list is
  posted yet); or it waits for lookups of the batch at a multiple \<open>i\<close> of 5, one
  \<open>packages\<close> message posted for the listing and one for every batch before; or it
  has returned, with one \<open>packages\<close> message for the listing and one for each of the
  \<open>(n + 4) div 5\<close> batches.
\<close>

definition alone :: "cycle list \<Rightarrow> nat \<Rightarrow> nat \<Rightarrow> nat \<Rightarrow> provider \<Rightarrow> bool" where
  "alone before r m n s \<longleftrightarrow>
     view s \<and> packages_ref s = r \<and> r < length (arrays s) \<and> length (arrays s ! r) = n
     \<and> set before \<subseteq> {Finished}
     \<and> ((\<exists>rest. cycles s = before @ [Searching rest] \<and> n = 0
              \<and> length (filter is_packages (posted s)) = m)
        \<or> (\<exists>i h pending. cycles s = before @ [Enriching i h pending]
              \<and> i < n \<and> 5 dvd i \<and> pending \<noteq> []
              \<and> subseq pending (map (Pair r) [i ..< min (i + 5) n])
              \<and> length (filter is_packages (posted s)) = m + 1 + i div 5)
        \<or> (cycles s = before @ [Finished]
              \<and> length (filter is_packages (posted s)) = m + 1 + (n + 4) div 5))"

text \<open>
  Sample data: an installed package, lists of twelve and of seven of them, the events
  of a first refresh that lists one installed package, the provider once that refresh
  has returned, a second refresh on it that has listed the twelve packages, and four
  lookups of its first batch settling out of order.
\<close>

definition installed :: "string \<Rightarrow> PackageInfo" where
  "installed n = \<lparr>name = n, version = Some ''1.0'', latestVersion = Undefined\<rparr>"

definition twelve_packages :: "PackageInfo list" where
  "twelve_packages =
     map installed [''attrs'', ''black'', ''click'', ''django'', ''flask'', ''idna'',
                    ''jinja2'', ''numpy'', ''pip'', ''requests'', ''six'', ''wheel'']"

definition seven_packages :: "PackageInfo list" where
  "seven_packages = take 7 twelve_packages"

definition first_refresh :: "input list" where
  "first_refresh = [RefreshRequested, ListSettled 0 (Listed [installed ''requests'']) 0]"

definition refreshed_once :: provider where
  "refreshed_once =
     run_events (first_refresh @ [LookupSettled 0 0 (Response (Some ''2.32.3''))])
       resolved_provider"

definition listed_twelve :: provider where
  "listed_twelve =
     run_events [RefreshRequested, ListSettled 1 (Listed twelve_packages) 0] refreshed_once"

definition four_settled :: "input list" where
  "four_settled =
     [LookupSettled 1 2 (Response (Some ''8.1.7'')), LookupSettled 1 0 Failed,
      LookupSettled 1 1 (Response (Some ''5.0'')), LookupSettled 1 1 (Response None)]"

section \<open>Properties of createPackageInfo\<close>

lemma split_from_no_eq:
  "CHR ''='' \<notin> set n \<Longrightarrow>
   split_from ''=='' cur (n @ rest) = split_from ''=='' (rev n @ cur) rest"
  by (induction n arbitrary: cur) auto

lemma split_from_no_sep:
  "\<not> sublist ''=='' v \<Longrightarrow> split_from ''=='' cur v = [rev cur @ v]"
proof (induction v arbitrary: cur)
  case Nil
  then show ?case by simp
next
  case (Cons c cs)
  have np: "\<not> prefix ''=='' (c # cs)" and ns: "\<not> sublist ''=='' cs"
    using Cons.prems by (simp_all add: sublist_Cons_right)
  have "split_from ''=='' cur (c # cs) = split_from ''=='' (c # cur) cs"
    using np by auto
  also have "\<dots> = [rev (c # cur) @ cs]"
    using ns by (rule Cons.IH)
  finally show ?case by simp
qed

lemma split_token:
  assumes "CHR ''='' \<notin> set n" "\<not> sublist ''=='' v"
  shows "js_split ''=='' (n @ ''=='' @ v) = [n, v]"
proof -
  have "js_split ''=='' (n @ ''=='' @ v) = split_from ''=='' (rev n) (''=='' @ v)"
    using assms(1) by (simp add: js_split_def split_from_no_eq)
  also have "\<dots> = n # split_from ''=='' [] v"
    by simp
  also have "\<dots> = [n, v]"
    using assms(2) by (simp add: split_from_no_sep)
  finally show ?thesis .
qed

lemma split_plain:
  assumes "CHR ''='' \<notin> set n"
  shows "js_split ''=='' n = [n]"
  using split_from_no_eq[OF assms, of "[]" "[]"] by (simp add: js_split_def)

lemma split_blank: "\<exists>rest. js_split ''=='' (''=='' @ w) = [] # rest"
  by (simp add: js_split_def)

lemma create_blank_token: "createPackageInfo (Token (''=='' @ w)) = None"
proof -
  obtain rest where "js_split ''=='' (''=='' @ w) = [] # rest"
    using split_blank by blast
  then show ?thesis
    by (cases rest) (simp_all add: createPackageInfo_def)
qed

lemma create_empty: "createPackageInfo (Token []) = None"
  by (simp add: createPackageInfo_def js_split_def)

lemma create_blank_structured:
  "name info = [] \<Longrightarrow> createPackageInfo (Structured info) = None"
  by (simp add: createPackageInfo_def)

lemma create_structured:
  "name info \<noteq> [] \<Longrightarrow> createPackageInfo (Structured info) = Some info"
  by (simp add: createPackageInfo_def)

lemma create_token_versioned:
  assumes "valid_name n" "valid_version v"
  shows "createPackageInfo (Token (n @ ''=='' @ v))
         = Some \<lparr>name = n, version = Some v, latestVersion = Undefined\<rparr>"
proof -
  have "js_split ''=='' (n @ ''=='' @ v) = [n, v]"
    using assms unfolding valid_name_def valid_version_def by (intro split_token) simp_all
  then show ?thesis
    using assms by (simp add: createPackageInfo_def valid_name_def valid_version_def)
qed

lemma create_token_plain:
  assumes "valid_name n"
  shows "createPackageInfo (Token n)
         = Some \<lparr>name = n, version = None, latestVersion = Undefined\<rparr>"
proof -
  have "js_split ''=='' n = [n]"
    using assms unfolding valid_name_def by (intro split_plain) simp
  then show ?thesis
    using assms by (simp add: createPackageInfo_def valid_name_def)
qed

lemma toString_versioned:
  "v \<noteq> [] \<Longrightarrow> toString \<lparr>name = n, version = Some v, latestVersion = l\<rparr> = n @ ''=='' @ v"
  by (simp add: toString_def)

lemma toString_plain: "toString \<lparr>name = n, version = None, latestVersion = l\<rparr> = n"
  by (simp add: toString_def)

text \<open>
  Claim C4. For a valid name \<open>n\<close> and a valid version \<open>v\<close>, each form of the spec
  parses to a record with that name and version whose string form is the canonical one
  (\<open>n==v\<close> or \<open>n\<close>), and parsing that string form gives the same name and version
  again (the same record, for the two token forms). A spec whose name is blank -- the
  empty token, a token that starts with the separator, a structured record with an
  empty name -- parses to no value; \<open>createPackageInfo\<close> is total, it raises nothing.
\<close>

theorem createPackageInfo_roundtrip:
  assumes n: "valid_name n" and v: "valid_version v"
  shows "(\<exists>r. createPackageInfo (Token (n @ ''=='' @ v)) = Some r
              \<and> name r = n \<and> version r = Some v
              \<and> toString r = n @ ''=='' @ v
              \<and> createPackageInfo (Token (toString r)) = Some r)
       \<and> (\<exists>r. createPackageInfo (Token n) = Some r
              \<and> name r = n \<and> version r = None
              \<and> toString r = n
              \<and> createPackageInfo (Token (toString r)) = Some r)
       \<and> (\<exists>r. createPackageInfo (Structured \<lparr>name = n, version = Some v, latestVersion = l\<rparr>) = Some r
              \<and> name r = n \<and> version r = Some v
              \<and> toString r = n @ ''=='' @ v
              \<and> map_option name (createPackageInfo (Token (toString r))) = Some n
              \<and> map_option version (createPackageInfo (Token (toString r))) = Some (Some v))
       \<and> (\<exists>r. createPackageInfo (Structured \<lparr>name = n, version = None, latestVersion = l\<rparr>) = Some r
              \<and> name r = n \<and> version r = None
              \<and> toString r = n
              \<and> map_option name (createPackageInfo (Token (toString r))) = Some n
              \<and> map_option version (createPackageInfo (Token (toString r))) = Some None)
       \<and> createPackageInfo (Token []) = None
       \<and> createPackageInfo (Token (''=='' @ w)) = None
       \<and> createPackageInfo (Structured \<lparr>name = [], version = x, latestVersion = l\<rparr>) = None"
proof -
  have vne: "v \<noteq> []" and nne: "n \<noteq> []"
    using n v by (simp_all add: valid_name_def valid_version_def)
  let ?tv = "\<lparr>name = n, version = Some v, latestVersion = Undefined\<rparr>"
  let ?tp = "\<lparr>name = n, version = None, latestVersion = Undefined\<rparr>"
  let ?sv = "\<lparr>name = n, version = Some v, latestVersion = l\<rparr>"
  let ?sp = "\<lparr>name = n, version = None, latestVersion = l\<rparr>"
  have tv: "createPackageInfo (Token (n @ ''=='' @ v)) = Some ?tv"
    using n v by (rule create_token_versioned)
  have tp: "createPackageInfo (Token n) = Some ?tp"
    using n by (rule create_token_plain)
  have sv: "createPackageInfo (Structured ?sv) = Some ?sv"
    using nne by (simp add: create_structured)
  have sp: "createPackageInfo (Structured ?sp) = Some ?sp"
    using nne by (simp add: create_structured)
  have c1: "\<exists>r. createPackageInfo (Token (n @ ''=='' @ v)) = Some r
              \<and> name r = n \<and> version r = Some v
              \<and> toString r = n @ ''=='' @ v
              \<and> createPackageInfo (Token (toString r)) = Some r"
    using tv vne by (intro exI[of _ ?tv]) (simp add: toString_versioned)
  have c2: "\<exists>r. createPackageInfo (Token n) = Some r
              \<and> name r = n \<and> version r = None
              \<and> toString r = n
              \<and> createPackageInfo (Token (toString r)) = Some r"
    using tp by (intro exI[of _ ?tp]) (simp add: toString_plain)
  have c3: "\<exists>r. createPackageInfo (Structured ?sv) = Some r
              \<and> name r = n \<and> version r = Some v
              \<and> toString r = n @ ''=='' @ v
              \<and> map_option name (createPackageInfo (Token (toString r))) = Some n
              \<and> map_option version (createPackageInfo (Token (toString r))) = Some (Some v)"
    using sv tv vne by (intro exI[of _ ?sv]) (simp add: toString_versioned)
  have c4: "\<exists>r. createPackageInfo (Structured ?sp) = Some r
              \<and> name r = n \<and> version r = None
              \<and> toString r = n
              \<and> map_option name (createPackageInfo (Token (toString r))) = Some n
              \<and> map_option version (createPackageInfo (Token (toString r))) = Some None"
    using sp tp by (intro exI[of _ ?sp]) (simp add: toString_plain)
  have c5: "createPackageInfo (Token []) = None"
    by (rule create_empty)
  have c6: "createPackageInfo (Token (''=='' @ w)) = None"
    by (rule create_blank_token)
  have c7: "createPackageInfo (Structured \<lparr>name = [], version = x, latestVersion = l\<rparr>) = None"
    by (simp add: create_blank_structured)
  from c1 c2 c3 c4 c5 c6 c7 show ?thesis by blast
qed

text \<open>
  The theorem at the specs of the repository's own unit test: \<open>test==0.0.1\<close>, \<open>test\<close>,
  \<open>{name: 'test', version: '0.0.1'}\<close>, and the blank specs \<open>''\<close>, \<open>==1.0\<close>, \<open>{name: ''}\<close>.
\<close>

theorem createPackageInfo_roundtrip_witness:
  "valid_name ''test'' \<and> valid_version ''0.0.1''
   \<and> map_option toString (createPackageInfo (Token ''test==0.0.1'')) = Some ''test==0.0.1''
   \<and> map_option toString (createPackageInfo (Token ''test'')) = Some ''test''
   \<and> map_option toString
        (createPackageInfo (Structured \<lparr>name = ''test'', version = Some ''0.0.1'', latestVersion = Undefined\<rparr>))
       = Some ''test==0.0.1''
   \<and> createPackageInfo (Token '''') = None
   \<and> createPackageInfo (Token ''==1.0'') = None
   \<and> createPackageInfo (Structured \<lparr>name = '''', version = None, latestVersion = Undefined\<rparr>) = None"
proof -
  have h1: "valid_name ''test''"
    by (simp add: valid_name_def)
  have h2: "valid_version ''0.0.1''"
    by (simp add: valid_version_def sublist_Cons_right)
  show ?thesis
    using h1 h2
      createPackageInfo_roundtrip[OF h1 h2, of Undefined "''1.0''" None]
    by auto
qed

section \<open>Properties of mergePackageListWithUpdate\<close>

lemma merge_empty_updates: "mergePackageListWithUpdate packInfo [] = packInfo"
  by (simp add: mergePackageListWithUpdate_def)

lemma merge_idempotent:
  "mergePackageListWithUpdate (mergePackageListWithUpdate packInfo updateInfo) updateInfo
   = mergePackageListWithUpdate packInfo updateInfo"
  by (simp add: mergePackageListWithUpdate_def Let_def)

lemma own_fold_notin:
  "k \<notin> entry_name ` set us \<Longrightarrow>
   fold (\<lambda>info m. obj_set m (entry_name info) (field_value (latest_version info))) us m k = m k"
  by (induction us arbitrary: m) (auto simp: obj_set_def)

lemma latestVersionMap_last:
  assumes "k \<noteq> ''__proto__''" "entry_name e = k" "k \<notin> entry_name ` set vs"
  shows "latestVersionMap (us @ e # vs) k = Some (field_value (latest_version e))"
proof -
  have "latestVersionMap (us @ e # vs) k
        = obj_set (fold (\<lambda>info m. obj_set m (entry_name info) (field_value (latest_version info)))
                     us Map.empty)
            (entry_name e) (field_value (latest_version e)) k"
    using assms(3) by (simp add: latestVersionMap_def own_fold_notin)
  also have "\<dots> = Some (field_value (latest_version e))"
    using assms(1,2) by (simp add: obj_set_def)
  finally show ?thesis .
qed

lemma merge_length: "length (mergePackageListWithUpdate p u) = length p"
  by (simp add: mergePackageListWithUpdate_def)

lemma merge_names: "map name (mergePackageListWithUpdate p u) = map name p"
  by (simp add: mergePackageListWithUpdate_def Let_def)

lemma merge_versions: "map version (mergePackageListWithUpdate p u) = map version p"
  by (simp add: mergePackageListWithUpdate_def Let_def)

lemma merge_nth:
  assumes "i < length p"
  shows "\<exists>lv. mergePackageListWithUpdate p u ! i = (p ! i)\<lparr>latestVersion := lv\<rparr>"
proof (cases "u \<noteq> [] \<and> truthy (obj_get (latestVersionMap u) (name (p ! i)))")
  case True
  then have "mergePackageListWithUpdate p u ! i
             = (p ! i)\<lparr>latestVersion := obj_get (latestVersionMap u) (name (p ! i))\<rparr>"
    using assms by (simp add: mergePackageListWithUpdate_def Let_def)
  then show ?thesis by blast
next
  case False
  then have "mergePackageListWithUpdate p u ! i = p ! i"
    using assms by (auto simp: mergePackageListWithUpdate_def Let_def)
  then have "mergePackageListWithUpdate p u ! i = (p ! i)\<lparr>latestVersion := latestVersion (p ! i)\<rparr>"
    by simp
  then show ?thesis by blast
qed

text \<open>
  An installed record whose name no update entry carries passes through unchanged,
  as long as the name is not one every plain object inherits.
\<close>

lemma merge_absent_name:
  assumes "i < length p" "name (p ! i) \<notin> entry_name ` set u"
    "name (p ! i) \<notin> set object_prototype_members"
  shows "mergePackageListWithUpdate p u ! i = p ! i"
  using assms
  by (simp add: mergePackageListWithUpdate_def Let_def obj_get_def latestVersionMap_def
      own_fold_notin)

lemma merge_last_falsy:
  assumes "u = us @ e # vs" "entry_name e \<notin> entry_name ` set vs"
    "latest_version e = None \<or> latest_version e = Some []"
    "entry_name e \<noteq> ''__proto__''" "i < length p" "name (p ! i) = entry_name e"
  shows "mergePackageListWithUpdate p u ! i = p ! i"
proof -
  have "latestVersionMap u (name (p ! i)) = Some (field_value (latest_version e))"
    using assms by (simp add: latestVersionMap_last)
  moreover have "\<not> truthy (field_value (latest_version e))"
    using assms(3) by (auto simp: field_value_def)
  ultimately show ?thesis
    using assms(5) by (simp add: mergePackageListWithUpdate_def Let_def obj_get_def)
qed

text \<open>
  Claim C3, at the input where the code leaves it. The installed list holds one
  package named \<open>constructor\<close>; the updates list is not empty and does not name it.
  \<open>latestVersionMap['constructor']\<close> is then the function every plain object inherits,
  which is truthy, so the record does not pass through unchanged: its \<open>latestVersion\<close>
  becomes that inherited member. (The other two parts of the claim hold:
  \<open>merge_empty_updates\<close>, \<open>merge_idempotent\<close>; so does the third for every name that
  is not inherited: \<open>merge_absent_name\<close>.)
\<close>

theorem mergePackageListWithUpdate_inherited_name:
  "''constructor'' \<notin> entry_name ` set [\<lparr>entry_name = ''pip'', latest_version = Some ''24.0''\<rparr>]
   \<and> mergePackageListWithUpdate
        [\<lparr>name = ''constructor'', version = Some ''3.4.5'', latestVersion = Undefined\<rparr>]
        [\<lparr>entry_name = ''pip'', latest_version = Some ''24.0''\<rparr>]
       = [\<lparr>name = ''constructor'', version = Some ''3.4.5'',
           latestVersion = ProtoMember ''constructor''\<rparr>]"
proof -
  have own: "latestVersionMap [\<lparr>entry_name = ''pip'', latest_version = Some ''24.0''\<rparr>] ''constructor''
             = None"
    by (simp add: latestVersionMap_def obj_set_def)
  have "obj_get (latestVersionMap [\<lparr>entry_name = ''pip'', latest_version = Some ''24.0''\<rparr>])
          ''constructor'' = ProtoMember ''constructor''"
    by (simp add: obj_get_def own object_prototype_members_def)
  then show ?thesis
    by (simp add: mergePackageListWithUpdate_def Let_def)
qed

text \<open>
  Claim C10, as stated, fails where two update entries carry the same name: the
  entry with no \<open>latest_version\<close> is overwritten in the map by the later one, and the
  record of that name is changed.
\<close>

theorem mergePackageListWithUpdate_overridden_entry:
  "latest_version \<lparr>entry_name = ''requests'', latest_version = None\<rparr> = None
   \<and> mergePackageListWithUpdate
        [\<lparr>name = ''requests'', version = Some ''2.0'', latestVersion = Undefined\<rparr>]
        [\<lparr>entry_name = ''requests'', latest_version = None\<rparr>,
         \<lparr>entry_name = ''requests'', latest_version = Some ''2.1''\<rparr>]
       = [\<lparr>name = ''requests'', version = Some ''2.0'', latestVersion = Str ''2.1''\<rparr>]"
  by (simp add: mergePackageListWithUpdate_def Let_def latestVersionMap_def obj_set_def
      obj_get_def field_value_def)

text \<open>
  Claim C10, amended. For every installed list and every updates list the result has
  the length, the names and the installed versions of the installed list, in its order,
  and each record differs from the installed one in its \<open>latestVersion\<close> at most. An
  update entry whose \<open>latest_version\<close> is absent or empty leaves the records of its
  name unchanged when no later entry of the updates list carries that name. (The name
  \<open>__proto__\<close> is left out: a plain object does not store it.)
\<close>

theorem mergePackageListWithUpdate_frame:
  "length (mergePackageListWithUpdate p u) = length p
   \<and> map name (mergePackageListWithUpdate p u) = map name p
   \<and> map version (mergePackageListWithUpdate p u) = map version p
   \<and> (\<forall>i < length p. \<exists>lv. mergePackageListWithUpdate p u ! i = (p ! i)\<lparr>latestVersion := lv\<rparr>)
   \<and> (\<forall>us e vs i.
         u = us @ e # vs \<and> entry_name e \<notin> entry_name ` set vs
         \<and> (latest_version e = None \<or> latest_version e = Some [])
         \<and> entry_name e \<noteq> ''__proto__'' \<and> i < length p \<and> name (p ! i) = entry_name e
         \<longrightarrow> mergePackageListWithUpdate p u ! i = p ! i)"
proof (intro conjI allI impI)
  show "length (mergePackageListWithUpdate p u) = length p"
    by (rule merge_length)
  show "map name (mergePackageListWithUpdate p u) = map name p"
    by (rule merge_names)
  show "map version (mergePackageListWithUpdate p u) = map version p"
    by (rule merge_versions)
next
  fix i assume "i < length p"
  then show "\<exists>lv. mergePackageListWithUpdate p u ! i = (p ! i)\<lparr>latestVersion := lv\<rparr>"
    by (rule merge_nth)
next
  fix us e vs i
  assume h: "u = us @ e # vs \<and> entry_name e \<notin> entry_name ` set vs
         \<and> (latest_version e = None \<or> latest_version e = Some [])
         \<and> entry_name e \<noteq> ''__proto__'' \<and> i < length p \<and> name (p ! i) = entry_name e"
  then show "mergePackageListWithUpdate p u ! i = p ! i"
    by (intro merge_last_falsy[of u us e vs i p]) simp_all
qed

text \<open>
  The theorem at a list of two installed packages and three update entries, the
  second of which has an empty \<open>latest_version\<close> and is the last of its name.
\<close>

theorem mergePackageListWithUpdate_frame_witness:
  "mergePackageListWithUpdate
     [\<lparr>name = ''pip'', version = Some ''23.0'', latestVersion = Undefined\<rparr>,
      \<lparr>name = ''requests'', version = Some ''2.0'', latestVersion = Undefined\<rparr>]
     [\<lparr>entry_name = ''requests'', latest_version = Some ''2.1''\<rparr>,
      \<lparr>entry_name = ''requests'', latest_version = Some ''''\<rparr>,
      \<lparr>entry_name = ''pip'', latest_version = Some ''24.0''\<rparr>] ! 1
   = \<lparr>name = ''requests'', version = Some ''2.0'', latestVersion = Undefined\<rparr>
   \<and> length (mergePackageListWithUpdate
       [\<lparr>name = ''pip'', version = Some ''23.0'', latestVersion = Undefined\<rparr>,
        \<lparr>name = ''requests'', version = Some ''2.0'', latestVersion = Undefined\<rparr>]
       [\<lparr>entry_name = ''requests'', latest_version = Some ''2.1''\<rparr>,
        \<lparr>entry_name = ''requests'', latest_version = Some ''''\<rparr>,
        \<lparr>entry_name = ''pip'', latest_version = Some ''24.0''\<rparr>]) = 2"
proof -
  let ?p = "[\<lparr>name = ''pip'', version = Some ''23.0'', latestVersion = Undefined\<rparr>,
      \<lparr>name = ''requests'', version = Some ''2.0'', latestVersion = Undefined\<rparr>]"
  let ?e = "\<lparr>entry_name = ''requests'', latest_version = Some ''''\<rparr>"
  let ?us = "[\<lparr>entry_name = ''requests'', latest_version = Some ''2.1''\<rparr>]"
  let ?vs = "[\<lparr>entry_name = ''pip'', latest_version = Some ''24.0''\<rparr>]"
  note frame = mergePackageListWithUpdate_frame[of ?p "?us @ ?e # ?vs"]
  from frame have len: "length (mergePackageListWithUpdate ?p (?us @ ?e # ?vs)) = length ?p"
    by blast
  from frame have
    "?us @ ?e # ?vs = ?us @ ?e # ?vs \<and> entry_name ?e \<notin> entry_name ` set ?vs
       \<and> (latest_version ?e = None \<or> latest_version ?e = Some [])
       \<and> entry_name ?e \<noteq> ''__proto__'' \<and> 1 < length ?p \<and> name (?p ! 1) = entry_name ?e
     \<longrightarrow> mergePackageListWithUpdate ?p (?us @ ?e # ?vs) ! 1 = ?p ! 1"
    by blast
  then have "mergePackageListWithUpdate ?p (?us @ ?e # ?vs) ! 1 = ?p ! 1"
    by simp
  with len show ?thesis
    by simp
qed

section \<open>Properties of execute\<close>

lemma on_event_warning: "warning_chunk e \<Longrightarrow> on_event t e s = s"
  by (cases e) (simp_all add: warning_chunk_def on_event_def on_stderr_def)

lemma fold_drop_warnings:
  "fold (on_event t) events s = fold (on_event t) (filter (\<lambda>e. \<not> warning_chunk e) events) s"
  by (induction events arbitrary: s) (simp_all add: on_event_warning)

lemma errMsg_on_event:
  "errMsg (on_event t e s)
   = errMsg s @ concat (filter (\<lambda>d. \<not> prefix ''WARNING'' d) (stderr_chunks [e]))"
  by (cases e)
    (simp_all add: on_event_def on_error_def on_stdout_def on_stderr_def on_cancel_def
      on_close_def Let_def stderr_chunks_def)

lemma stderr_chunks_Cons: "stderr_chunks (e # es) = stderr_chunks [e] @ stderr_chunks es"
  by (simp add: stderr_chunks_def)

lemma errMsg_fold:
  "errMsg (fold (on_event t) events s)
   = errMsg s @ concat (filter (\<lambda>d. \<not> prefix ''WARNING'' d) (stderr_chunks events))"
proof (induction events arbitrary: s)
  case Nil
  show ?case by (simp add: stderr_chunks_def)
next
  case (Cons e es)
  have "errMsg (fold (on_event t) (e # es) s) = errMsg (fold (on_event t) es (on_event t e s))"
    by simp
  also have "\<dots> = errMsg (on_event t e s)
      @ concat (filter (\<lambda>d. \<not> prefix ''WARNING'' d) (stderr_chunks es))"
    by (rule Cons.IH)
  also have "\<dots> = errMsg s @ concat (filter (\<lambda>d. \<not> prefix ''WARNING'' d) (stderr_chunks (e # es)))"
    by (simp add: errMsg_on_event stderr_chunks_Cons[of e es])
  finally show ?case .
qed

lemma execute_errMsg:
  "errMsg (execute c a t None events)
   = concat (filter (\<lambda>d. \<not> prefix ''WARNING'' d) (stderr_chunks events))"
  by (simp add: execute_def Let_def errMsg_fold)

lemma execute_drop_warnings:
  "execute c a t None events = execute c a t None (filter (\<lambda>e. \<not> warning_chunk e) events)"
  unfolding execute_def Let_def using fold_drop_warnings by simp

lemma execute_snoc:
  "execute c a t None (events @ [e]) = on_event t e (execute c a t None events)"
  by (simp add: execute_def Let_def)

lemma close_failure:
  assumes "code \<noteq> 0" "result s = Pending"
  shows "result (on_close (Some code) s)
         = Rejected (if errMsg s \<noteq> [] then errMsg s else ''Command failed'') (Some code)"
  using assms by (simp add: on_close_def Let_def settle_def)

text \<open>
  Claim C7, as stated, fails: a chunk of standard error that starts with \<open>WARNING\<close>
  is kept out of the output channel as well. Here \<open>pip list\<close> prints one warning and
  exits with code 1; the channel receives the invocation line and the closing empty
  line only.
\<close>

theorem execute_warning_not_surfaced:
  "execute ''python'' [''-m'', ''pip'', ''list''] False None
     [StderrData ''WARNING: old pip'', Close (Some 1)]
   = \<lparr>out = [], errMsg = [], output_lines = [''exec python -m pip list'', ''''],
      result = Rejected ''Command failed'' (Some 1), kills = 0\<rparr>"
  by (simp add: execute_def Let_def on_event_def on_stderr_def on_close_def settle_def)

text \<open>
  Claim C7, amended. A chunk of standard error that starts with \<open>WARNING\<close> leaves no
  trace: the run is the one without these chunks, so they reach neither the error
  message nor the output channel. Every other chunk of standard error is appended to
  both. The error message is the concatenation of the other chunks in their order of
  arrival, and it is the message of the rejection when the process closes with a
  non-zero code (\<open>Command failed\<close> when it is empty).
\<close>

theorem execute_warning_chunks:
  "execute c a t None events = execute c a t None (filter (\<lambda>e. \<not> warning_chunk e) events)
   \<and> errMsg (execute c a t None events)
       = concat (filter (\<lambda>d. \<not> prefix ''WARNING'' d) (stderr_chunks events))
   \<and> (prefix ''WARNING'' data \<longrightarrow> on_stderr data s = s)
   \<and> (\<not> prefix ''WARNING'' data \<longrightarrow>
        output_lines (on_stderr data s) = output_lines s @ [data]
        \<and> errMsg (on_stderr data s) = errMsg s @ data)
   \<and> (code \<noteq> 0 \<and> result (execute c a t None events) = Pending \<longrightarrow>
        result (execute c a t None (events @ [Close (Some code)]))
        = Rejected
            (if concat (filter (\<lambda>d. \<not> prefix ''WARNING'' d) (stderr_chunks events)) \<noteq> []
             then concat (filter (\<lambda>d. \<not> prefix ''WARNING'' d) (stderr_chunks events))
             else ''Command failed'')
            (Some code))"
proof (intro conjI impI)
  show "execute c a t None events = execute c a t None (filter (\<lambda>e. \<not> warning_chunk e) events)"
    by (rule execute_drop_warnings)
  show "errMsg (execute c a t None events)
       = concat (filter (\<lambda>d. \<not> prefix ''WARNING'' d) (stderr_chunks events))"
    by (rule execute_errMsg)
next
  assume "prefix ''WARNING'' data"
  then show "on_stderr data s = s"
    by (simp add: on_stderr_def)
next
  assume "\<not> prefix ''WARNING'' data"
  then show "output_lines (on_stderr data s) = output_lines s @ [data]"
    and "errMsg (on_stderr data s) = errMsg s @ data"
    by (simp_all add: on_stderr_def)
next
  assume h: "code \<noteq> 0 \<and> result (execute c a t None events) = Pending"
  have "result (execute c a t None (events @ [Close (Some code)]))
        = result (on_close (Some code) (execute c a t None events))"
    by (simp add: execute_snoc on_event_def)
  also have "\<dots> = Rejected (if errMsg (execute c a t None events) \<noteq> []
                              then errMsg (execute c a t None events) else ''Command failed'')
                      (Some code)"
    using h by (intro close_failure) simp_all
  finally show "result (execute c a t None (events @ [Close (Some code)]))
        = Rejected
            (if concat (filter (\<lambda>d. \<not> prefix ''WARNING'' d) (stderr_chunks events)) \<noteq> []
             then concat (filter (\<lambda>d. \<not> prefix ''WARNING'' d) (stderr_chunks events))
             else ''Command failed'')
            (Some code)"
    by (simp only: execute_errMsg)
qed

theorem execute_warning_chunks_witness:
  "on_stderr ''WARNING: old pip'' (execute ''python'' [''-m'', ''pip'', ''list''] False None [])
     = execute ''python'' [''-m'', ''pip'', ''list''] False None []
   \<and> output_lines (on_stderr ''ERROR: broken''
         (execute ''python'' [''-m'', ''pip'', ''list''] False None []))
       = [''exec python -m pip list'', ''ERROR: broken'']
   \<and> result (execute ''python'' [''-m'', ''pip'', ''list''] False None
         ([StderrData ''WARNING: old pip'', StderrData ''ERROR: broken''] @ [Close (Some 1)]))
       = Rejected ''ERROR: broken'' (Some 1)"
proof -
  let ?s = "execute ''python'' [''-m'', ''pip'', ''list''] False None []"
  let ?ev = "[StderrData ''WARNING: old pip'', StderrData ''ERROR: broken'']"
  have p1: "prefix ''WARNING'' ''WARNING: old pip''"
    by simp
  have p2: "\<not> prefix ''WARNING'' ''ERROR: broken''"
    by simp
  have p3: "(1::int) \<noteq> 0 \<and> result (execute ''python'' [''-m'', ''pip'', ''list''] False None ?ev) = Pending"
    by (simp add: execute_def Let_def on_event_def on_stderr_def)
  have lines: "output_lines ?s = [''exec python -m pip list'']"
    by (simp add: execute_def Let_def)
  have chunks: "concat (filter (\<lambda>d. \<not> prefix ''WARNING'' d) (stderr_chunks ?ev)) = ''ERROR: broken''"
    by (simp add: stderr_chunks_def)
  note w = execute_warning_chunks[of "''python''" "[''-m'', ''pip'', ''list'']" False ?ev
      "''WARNING: old pip''" ?s 1]
  note e = execute_warning_chunks[of "''python''" "[''-m'', ''pip'', ''list'']" False ?ev
      "''ERROR: broken''" ?s 1]
  from w p1 have a: "on_stderr ''WARNING: old pip'' ?s = ?s"
    by blast
  from e p2 have b: "output_lines (on_stderr ''ERROR: broken'' ?s) = output_lines ?s @ [''ERROR: broken'']"
    by blast
  from e p3 have c: "result (execute ''python'' [''-m'', ''pip'', ''list''] False None (?ev @ [Close (Some 1)]))
      = Rejected
          (if concat (filter (\<lambda>d. \<not> prefix ''WARNING'' d) (stderr_chunks ?ev)) \<noteq> []
           then concat (filter (\<lambda>d. \<not> prefix ''WARNING'' d) (stderr_chunks ?ev))
           else ''Command failed'')
          (Some 1)"
    by blast
  from a b c show ?thesis
    by (simp only: lines chunks) simp
qed

lemma execute_snoc2:
  "execute c a t None (events @ [e1, e2]) = on_event t e2 (on_event t e1 (execute c a t None events))"
  by (simp add: execute_def Let_def)

lemma cancel_fields:
  "result (on_event True CancellationRequested s) = result s"
  "kills (on_event True CancellationRequested s) = kills s + 1"
  "out (on_event True CancellationRequested s) = out s"
  "errMsg (on_event True CancellationRequested s) = errMsg s"
  "output_lines (on_event True CancellationRequested s) = output_lines s @ [''cancel command'']"
  by (simp_all add: on_event_def on_cancel_def)

lemma close_success:
  assumes "code = None \<or> code = Some 0" "result s = Pending"
  shows "result (on_close code s) = Resolved (out s)"
  using assms by (auto simp: on_close_def Let_def settle_def)

text \<open>
  Claim C6, as stated, fails in its middle part. \<open>pip install\<close> has printed one chunk
  when the token is cancelled: the listener logs the cancellation and calls
  \<open>p.kill()\<close>. The process, terminated by the signal, closes with the exit code
  \<open>null\<close>; \<open>!code\<close> holds for \<open>null\<close>, so the promise is resolved with the output
  read so far: the cancelled call does resolve successfully.
\<close>

theorem execute_cancelled_resolves:
  "execute ''python'' [''-m'', ''pip'', ''install'', ''-U'', ''requests''] True None
     [StdoutData ''Collecting requests'', CancellationRequested, Close None]
   = \<lparr>out = ''Collecting requests'', errMsg = [],
      output_lines = [''exec python -m pip install -U requests'', ''Collecting requests'',
        ''cancel command'', ''''],
      result = Resolved ''Collecting requests'', kills = 1\<rparr>"
proof -
  let ?s0 = "\<lparr>out = [], errMsg = [],
      output_lines = [''exec python -m pip install -U requests''],
      result = Pending, kills = 0\<rparr>"
  let ?s1 = "?s0\<lparr>out := ''Collecting requests'',
      output_lines := [''exec python -m pip install -U requests'', ''Collecting requests'']\<rparr>"
  let ?s2 = "?s1\<lparr>output_lines := [''exec python -m pip install -U requests'',
        ''Collecting requests'', ''cancel command''],
      kills := 1\<rparr>"
  have chunk: "on_event True (StdoutData ''Collecting requests'') ?s0 = ?s1"
    by (simp add: on_event_def on_stdout_def)
  have cancel: "on_event True CancellationRequested ?s1 = ?s2"
    by (simp add: on_event_def on_cancel_def)
  have closed: "on_event True (Close None) ?s2
      = ?s2\<lparr>output_lines := [''exec python -m pip install -U requests'',
            ''Collecting requests'', ''cancel command'', ''''],
          result := Resolved ''Collecting requests''\<rparr>"
    by (simp add: on_event_def on_close_def settle_def)
  have "execute ''python'' [''-m'', ''pip'', ''install'', ''-U'', ''requests''] True None
     [StdoutData ''Collecting requests'', CancellationRequested, Close None]
     = on_event True (Close None)
         (on_event True CancellationRequested
            (on_event True (StdoutData ''Collecting requests'') ?s0))"
    by (simp add: execute_def)
  then show ?thesis
    by (simp only: chunk cancel closed) simp
qed

text \<open>
  Claim C6, amended. Let a call with a cancellation token be pending. When the token
  is cancelled, the cancellation is logged and \<open>p.kill()\<close> is called once; the
  cancellation itself does not settle the promise, neither way, and there is no error
  kind of its own for it. The promise settles when the process closes, as for any
  other call: it is resolved with the accumulated standard output when the process was
  terminated by the signal (exit code \<open>null\<close>), and rejected with the accumulated error
  message and the code when the process still exits with a non-zero code.
\<close>

theorem execute_cancellation:
  assumes pending: "result (execute c a True None events) = Pending"
  shows "kills (execute c a True None (events @ [CancellationRequested]))
           = kills (execute c a True None events) + 1
       \<and> output_lines (execute c a True None (events @ [CancellationRequested]))
           = output_lines (execute c a True None events) @ [''cancel command'']
       \<and> result (execute c a True None (events @ [CancellationRequested])) = Pending
       \<and> result (execute c a True None (events @ [CancellationRequested, Close None]))
           = Resolved (out (execute c a True None events))
       \<and> (code \<noteq> 0 \<longrightarrow>
            result (execute c a True None (events @ [CancellationRequested, Close (Some code)]))
            = Rejected (if errMsg (execute c a True None events) \<noteq> []
                        then errMsg (execute c a True None events) else ''Command failed'')
                (Some code))"
proof -
  let ?s = "execute c a True None events"
  let ?k = "on_event True CancellationRequested ?s"
  have step1: "execute c a True None (events @ [CancellationRequested]) = ?k"
    by (rule execute_snoc)
  have rk: "result ?k = Pending"
    using pending by (simp add: cancel_fields)
  have c1: "kills (execute c a True None (events @ [CancellationRequested])) = kills ?s + 1"
    by (simp only: step1 cancel_fields)
  have c2: "output_lines (execute c a True None (events @ [CancellationRequested]))
      = output_lines ?s @ [''cancel command'']"
    by (simp only: step1 cancel_fields)
  have c3: "result (execute c a True None (events @ [CancellationRequested])) = Pending"
    by (simp only: step1 rk)
  have "result (execute c a True None (events @ [CancellationRequested, Close None]))
      = result (on_close None ?k)"
    by (simp add: execute_snoc2 on_event_def)
  also have "\<dots> = Resolved (out ?k)"
    using rk by (intro close_success) simp_all
  finally have c4: "result (execute c a True None (events @ [CancellationRequested, Close None]))
      = Resolved (out ?s)"
    by (simp add: cancel_fields)
  have c5: "code \<noteq> 0 \<longrightarrow>
            result (execute c a True None (events @ [CancellationRequested, Close (Some code)]))
            = Rejected (if errMsg ?s \<noteq> [] then errMsg ?s else ''Command failed'') (Some code)"
  proof
    assume nz: "code \<noteq> 0"
    have "result (execute c a True None (events @ [CancellationRequested, Close (Some code)]))
        = result (on_close (Some code) ?k)"
      by (simp add: execute_snoc2 on_event_def)
    also have "\<dots> = Rejected (if errMsg ?k \<noteq> [] then errMsg ?k else ''Command failed'') (Some code)"
      using nz rk by (rule close_failure)
    finally show "result (execute c a True None (events @ [CancellationRequested, Close (Some code)]))
        = Rejected (if errMsg ?s \<noteq> [] then errMsg ?s else ''Command failed'') (Some code)"
      by (simp add: cancel_fields)
  qed
  from c1 c2 c3 c4 c5 show ?thesis
    by blast
qed

text \<open>
  The theorem at \<open>pip install -U numpy\<close>, cancelled after two chunks of output.
\<close>

theorem execute_cancellation_witness:
  "result (execute ''python'' [''-m'', ''pip'', ''install'', ''-U'', ''numpy''] True None
             [StdoutData ''Collecting numpy'', StdoutData ''Downloading'']) = Pending
   \<and> kills (execute ''python'' [''-m'', ''pip'', ''install'', ''-U'', ''numpy''] True None
             ([StdoutData ''Collecting numpy'', StdoutData ''Downloading''] @ [CancellationRequested])) = 1
   \<and> result (execute ''python'' [''-m'', ''pip'', ''install'', ''-U'', ''numpy''] True None
             ([StdoutData ''Collecting numpy'', StdoutData ''Downloading'']
              @ [CancellationRequested, Close None]))
       = Resolved ''Collecting numpyDownloading''
   \<and> result (execute ''python'' [''-m'', ''pip'', ''install'', ''-U'', ''numpy''] True None
             ([StdoutData ''Collecting numpy'', StdoutData ''Downloading'']
              @ [CancellationRequested, Close (Some 1)]))
       = Rejected ''Command failed'' (Some 1)"
proof -
  let ?ev = "[StdoutData ''Collecting numpy'', StdoutData ''Downloading'']"
  let ?s = "execute ''python'' [''-m'', ''pip'', ''install'', ''-U'', ''numpy''] True None ?ev"
  have s: "?s = \<lparr>out = ''Collecting numpyDownloading'', errMsg = [],
      output_lines = [''exec python -m pip install -U numpy'', ''Collecting numpy'', ''Downloading''],
      result = Pending, kills = 0\<rparr>"
    by (simp add: execute_def on_event_def on_stdout_def)
  have p: "result ?s = Pending"
    by (simp add: s)
  note inst = execute_cancellation[OF p, of 1]
  from inst have a: "kills (execute ''python'' [''-m'', ''pip'', ''install'', ''-U'', ''numpy''] True None
             (?ev @ [CancellationRequested])) = kills ?s + 1"
    by blast
  from inst have b: "result (execute ''python'' [''-m'', ''pip'', ''install'', ''-U'', ''numpy''] True None
             (?ev @ [CancellationRequested, Close None])) = Resolved (out ?s)"
    by blast
  from inst have c: "result (execute ''python'' [''-m'', ''pip'', ''install'', ''-U'', ''numpy''] True None
             (?ev @ [CancellationRequested, Close (Some 1)]))
       = Rejected (if errMsg ?s \<noteq> [] then errMsg ?s else ''Command failed'') (Some 1)"
    by simp
  have k0: "kills ?s = 0" and o: "out ?s = ''Collecting numpyDownloading''" and e: "errMsg ?s = []"
    by (simp_all add: s)
  from p a b c show ?thesis
    by (simp only: k0 o e) simp
qed

section \<open>Properties of removePackage\<close>

lemma split_from_nonempty: "split_from sep cur s \<noteq> []"
  by (induction sep cur s rule: split_from.induct) auto

lemma split_name_first:
  assumes "CHR ''='' \<notin> set n"
  shows "\<exists>v' rest. js_split ''=='' (n @ ''=='' @ v) = n # v' # rest"
proof -
  have "js_split ''=='' (n @ ''=='' @ v) = split_from ''=='' (rev n) (''=='' @ v)"
    using assms by (simp add: js_split_def split_from_no_eq)
  also have "\<dots> = n # split_from ''=='' [] v"
    by simp
  finally have eq: "js_split ''=='' (n @ ''=='' @ v) = n # split_from ''=='' [] v" .
  obtain v' rest where "split_from ''=='' [] v = v' # rest"
    using split_from_nonempty[of "''==''" "[]" v] by (cases "split_from ''=='' [] v") auto
  with eq show ?thesis by simp
qed

lemma create_name_of_token:
  assumes "CHR ''='' \<notin> set n" "n \<noteq> []"
  shows "\<exists>r. createPackageInfo (Token (n @ ''=='' @ v)) = Some r \<and> name r = n"
proof -
  obtain v' rest where "js_split ''=='' (n @ ''=='' @ v) = n # v' # rest"
    using split_name_first[OF assms(1)] by blast
  then show ?thesis
    using assms(2) by (simp add: createPackageInfo_def)
qed

lemma protected_no_eq: "n \<in> set necessaryPackage \<Longrightarrow> CHR ''='' \<notin> set n \<and> n \<noteq> []"
  by (auto simp: necessaryPackage_def)

lemma removePackage_by_name:
  assumes "createPackageInfo p = Some r" "name r \<in> set necessaryPackage"
  shows "removePackage py run p = (Inr (), [])"
  using assms by (simp add: removePackage_def)

text \<open>
  Claim C9, as stated, fails in its last part: \<open>removePackage\<close> reports nothing. Its
  promise is fulfilled without a value for the protected \<open>pip\<close>, exactly as it is
  for \<open>requests\<close> after a successful uninstall, so the caller cannot tell the two
  outcomes apart.
\<close>

theorem removePackage_same_outcome:
  "removePackage ''python'' succeeding_runner (Token ''pip'') = (Inr (), [])
   \<and> removePackage ''python'' succeeding_runner (Token ''requests'')
       = (Inr (), [(''python'', [''-m'', ''pip'', ''uninstall'', ''requests'', ''-y''])])
   \<and> fst (removePackage ''python'' succeeding_runner (Token ''pip''))
       = fst (removePackage ''python'' succeeding_runner (Token ''requests''))"
  by (simp add: removePackage_def createPackageInfo_def js_split_def necessaryPackage_def
      pip_def succeeding_runner_def)

text \<open>
  Claim C9, amended. For every protected name, given as a plain token, with a version
  or as a record, \<open>removePackage\<close> runs no command at all (so nothing is uninstalled
  and the installed packages stay as they are) and completes without error, fulfilled
  without a value. The outcome \<open>false\<close> (did not remove) is what the command
  \<open>pydep-pilot.removePackage\<close> returns for such a name, before it would call
  \<open>removePackage\<close>.
\<close>

theorem removePackage_protected:
  "\<forall>n \<in> set necessaryPackage.
     removePackage py run (Token n) = (Inr (), [])
     \<and> removePackage py run (Token (n @ ''=='' @ v)) = (Inr (), [])
     \<and> removePackage py run (Structured \<lparr>name = n, version = x, latestVersion = l\<rparr>) = (Inr (), [])
     \<and> removePackageCommand py run (Some n) box = (Inr False, [])
     \<and> removePackageCommand py run (Some (n @ ''=='' @ v)) box = (Inr False, [])"
proof
  fix n assume prot: "n \<in> set necessaryPackage"
  then have ne: "CHR ''='' \<notin> set n" and nn: "n \<noteq> []"
    using protected_no_eq by blast+
  have plain: "js_split ''=='' n = [n]"
    using ne by (rule split_plain)
  then have "createPackageInfo (Token n) = Some \<lparr>name = n, version = None, latestVersion = Undefined\<rparr>"
    using nn by (simp add: createPackageInfo_def)
  then have a: "removePackage py run (Token n) = (Inr (), [])"
    using prot by (simp add: removePackage_def)
  obtain r where r: "createPackageInfo (Token (n @ ''=='' @ v)) = Some r" "name r = n"
    using create_name_of_token[OF ne nn] by blast
  then have b: "removePackage py run (Token (n @ ''=='' @ v)) = (Inr (), [])"
    using prot by (simp add: removePackage_def)
  have "createPackageInfo (Structured \<lparr>name = n, version = x, latestVersion = l\<rparr>)
        = Some \<lparr>name = n, version = x, latestVersion = l\<rparr>"
    using nn by (simp add: createPackageInfo_def)
  then have c: "removePackage py run (Structured \<lparr>name = n, version = x, latestVersion = l\<rparr>) = (Inr (), [])"
    using prot by (simp add: removePackage_def)
  have d: "removePackageCommand py run (Some n) box = (Inr False, [])"
    using prot nn plain by (simp add: removePackageCommand_def)
  obtain v' rest where "js_split ''=='' (n @ ''=='' @ v) = n # v' # rest"
    using split_name_first[OF ne] by blast
  then have e: "removePackageCommand py run (Some (n @ ''=='' @ v)) box = (Inr False, [])"
    using prot nn by (simp add: removePackageCommand_def)
  from a b c d e
  show "removePackage py run (Token n) = (Inr (), [])
     \<and> removePackage py run (Token (n @ ''=='' @ v)) = (Inr (), [])
     \<and> removePackage py run (Structured \<lparr>name = n, version = x, latestVersion = l\<rparr>) = (Inr (), [])
     \<and> removePackageCommand py run (Some n) box = (Inr False, [])
     \<and> removePackageCommand py run (Some (n @ ''=='' @ v)) box = (Inr False, [])"
    by blast
qed

theorem removePackage_protected_witness:
  "''pip'' \<in> set necessaryPackage
   \<and> removePackage ''python'' succeeding_runner (Token ''pip'') = (Inr (), [])
   \<and> removePackage ''python'' succeeding_runner (Token ''pip==24.0'') = (Inr (), [])
   \<and> removePackageCommand ''python'' succeeding_runner (Some ''pip'') [] = (Inr False, [])"
proof -
  have h: "''pip'' \<in> set necessaryPackage"
    by (simp add: necessaryPackage_def)
  show ?thesis
    using h removePackage_protected[of "''python''" succeeding_runner "''24.0''" None Undefined "[]"]
    by auto
qed

section \<open>Properties of searchFromPyPi\<close>

lemma clamp_at_least:
  "at_least (if number_less (if number_truthy parsed then parsed else Num 1) page then Num page
             else (if number_truthy parsed then parsed else Num 1)) page"
  by (cases parsed) auto

lemma search_with_pagination:
  assumes "result_block body = Some (Children items)"
    "pagination_block body = Some (Children anchors)" "2 \<le> length anchors"
  shows "searchFromPyPi Number (Some body) page
         = Inr (map pick_item items,
                let parsed = number_of Number (anchors ! (length anchors - 2));
                    totalPages = (if number_truthy parsed then parsed else Num 1)
                in if number_less totalPages page then Num page else totalPages)"
  using assms by (simp add: searchFromPyPi_def Let_def)

lemma search_without_pagination:
  assumes "result_block body = Some (Children items)" "pagination_block body = None"
  shows "searchFromPyPi Number (Some body) page = Inr (map pick_item items, Num 1)"
  using assms by (simp add: searchFromPyPi_def Let_def)

lemma Number_7: "Number_of_text ''7'' = Num 7"
  by (simp add: Number_of_text_def is_digit_def parse_digits_def digit_value_def)

lemma Number_Next: "Number_of_text ''Next'' = NaN"
  by (simp add: Number_of_text_def is_digit_def)

text \<open>
  Claim C8, as stated, fails in its last part: the clamp to the requested page stands
  inside \<open>if (paginationXml)\<close>. For a body without a pagination block and the
  requested page 3 the returned \<open>totalPages\<close> is 1.
\<close>

theorem searchFromPyPi_no_pagination_page_3:
  "searchFromPyPi Number_of_text
     (Some \<lparr>result_block = Some (Children [sample_item, sample_item]), pagination_block = None\<rparr>) 3
   = Inr ([pick_item sample_item, pick_item sample_item], Num 1)
   \<and> \<not> at_least (Num 1) 3"
  by (simp add: searchFromPyPi_def)

text \<open>
  Claim C8, amended. Let the body have a result block whose items the parser gives as
  an array. Without a pagination block
  \<open>totalPages\<close> is 1, whatever page was requested. With a pagination block of at least
  two anchors, \<open>totalPages\<close> is read from the second-to-last anchor: it is that
  anchor's number, or 1 when the anchor has no text or its text is no number (or is 0),
  raised to the requested page when it is below it; so it is at least the requested
  page.
\<close>

theorem searchFromPyPi_totalPages:
  assumes res: "result_block body = Some (Children items)"
  shows "(pagination_block body = None \<longrightarrow>
            searchFromPyPi Number (Some body) page = Inr (map pick_item items, Num 1))
       \<and> (pagination_block body = Some (Children anchors) \<and> 2 \<le> length anchors \<longrightarrow>
            (\<exists>tp. searchFromPyPi Number (Some body) page = Inr (map pick_item items, tp)
               \<and> at_least tp page
               \<and> (\<not> number_truthy (number_of Number (anchors ! (length anchors - 2)))
                     \<longrightarrow> tp = Num (max 1 page))
               \<and> (number_truthy (number_of Number (anchors ! (length anchors - 2)))
                   \<and> \<not> number_less (number_of Number (anchors ! (length anchors - 2))) page
                     \<longrightarrow> tp = number_of Number (anchors ! (length anchors - 2)))
               \<and> (number_truthy (number_of Number (anchors ! (length anchors - 2)))
                   \<and> number_less (number_of Number (anchors ! (length anchors - 2))) page
                     \<longrightarrow> tp = Num page)))"
proof (intro conjI impI)
  assume "pagination_block body = None"
  with res show "searchFromPyPi Number (Some body) page = Inr (map pick_item items, Num 1)"
    by (rule search_without_pagination)
next
  assume pag: "pagination_block body = Some (Children anchors) \<and> 2 \<le> length anchors"
  define parsed where "parsed = number_of Number (anchors ! (length anchors - 2))"
  define tp where "tp = (if number_less (if number_truthy parsed then parsed else Num 1) page
      then Num page else (if number_truthy parsed then parsed else Num 1))"
  have run: "searchFromPyPi Number (Some body) page = Inr (map pick_item items, tp)"
    using search_with_pagination[OF res, of anchors Number page] pag
    by (simp add: Let_def tp_def parsed_def)
  have ge: "at_least tp page"
    unfolding tp_def by (rule clamp_at_least)
  have d1: "\<not> number_truthy parsed \<longrightarrow> tp = Num (max 1 page)"
    by (auto simp: tp_def max_def)
  have d2: "number_truthy parsed \<and> \<not> number_less parsed page \<longrightarrow> tp = parsed"
    by (simp add: tp_def)
  have d3: "number_truthy parsed \<and> number_less parsed page \<longrightarrow> tp = Num page"
    by (simp add: tp_def)
  from run ge d1 d2 d3
  show "\<exists>tp. searchFromPyPi Number (Some body) page = Inr (map pick_item items, tp)
               \<and> at_least tp page
               \<and> (\<not> number_truthy (number_of Number (anchors ! (length anchors - 2)))
                     \<longrightarrow> tp = Num (max 1 page))
               \<and> (number_truthy (number_of Number (anchors ! (length anchors - 2)))
                   \<and> \<not> number_less (number_of Number (anchors ! (length anchors - 2))) page
                     \<longrightarrow> tp = number_of Number (anchors ! (length anchors - 2)))
               \<and> (number_truthy (number_of Number (anchors ! (length anchors - 2)))
                   \<and> number_less (number_of Number (anchors ! (length anchors - 2))) page
                     \<longrightarrow> tp = Num page)"
    unfolding parsed_def by blast
qed

theorem searchFromPyPi_totalPages_witness:
  "searchFromPyPi Number_of_text
     (Some \<lparr>result_block = Some (Children [sample_item, sample_item]),
            pagination_block = Some (Children [Some ''Previous'', Some ''1'', Some ''7'', Some ''Next''])\<rparr>) 9
   = Inr ([pick_item sample_item, pick_item sample_item], Num 9)
   \<and> searchFromPyPi Number_of_text
     (Some \<lparr>result_block = Some (Children [sample_item, sample_item]),
            pagination_block = None\<rparr>) 1
   = Inr ([pick_item sample_item, pick_item sample_item], Num 1)"
proof -
  let ?b = "\<lparr>result_block = Some (Children [sample_item, sample_item]),
            pagination_block = Some (Children [Some ''Previous'', Some ''1'', Some ''7'', Some ''Next''])\<rparr>"
  let ?c = "\<lparr>result_block = Some (Children [sample_item, sample_item]),
            pagination_block = None :: string option xml_children option\<rparr>"
  let ?as = "[Some ''Previous'', Some ''1'', Some ''7'', Some ''Next'']"
  have parsed: "number_of Number_of_text (?as ! (length ?as - 2)) = Num 7"
    by (simp add: number_of_def Number_7)
  have hb: "result_block ?b = Some (Children [sample_item, sample_item])"
    by simp
  have hc: "result_block ?c = Some (Children [sample_item, sample_item])"
    by simp
  from searchFromPyPi_totalPages[OF hb, where anchors = ?as and Number = Number_of_text and page = 9]
  obtain tp where tp: "searchFromPyPi Number_of_text (Some ?b) 9
        = Inr (map pick_item [sample_item, sample_item], tp)"
      "number_truthy (number_of Number_of_text (?as ! (length ?as - 2)))
        \<and> number_less (number_of Number_of_text (?as ! (length ?as - 2))) 9 \<longrightarrow> tp = Num 9"
    by auto
  have "tp = Num 9"
    using tp(2) by (simp only: parsed) simp
  with tp(1) have a: "searchFromPyPi Number_of_text (Some ?b) 9
      = Inr ([pick_item sample_item, pick_item sample_item], Num 9)"
    by simp
  from searchFromPyPi_totalPages[OF hc, where Number = Number_of_text and page = 1]
  have b: "searchFromPyPi Number_of_text (Some ?c) 1
      = Inr ([pick_item sample_item, pick_item sample_item], Num 1)"
    by simp
  from a b show ?thesis by blast
qed

section \<open>Properties of getPackageVersionList\<close>


















































lemma example_parts: "version_parts ''1.0rc2'' = [Whole 1, Whole 2]"
   "version_parts ''1.1'' = [Whole 1, Whole 1]"
   "spec_parts ''1.0rc2'' = [1, 0]" "spec_parts ''1.1'' = [1, 1]"
  by code_simp+

text \<open>
  From \<open>2^53\<close> on the numbers are rounded: \<open>9007199254740993\<close> is read as
  \<open>9007199254740992\<close>, the comparator does not separate the two versions, and they stay
  in the order of the response.
\<close>

lemma example_rounded:
  "version_parts ''1.9007199254740993'' = [Whole 1, Whole 9007199254740992]"
  "version_parts ''1.9007199254740992'' = [Whole 1, Whole 9007199254740992]"
  "sort_by compare_versions [''1.9007199254740992'', ''1.9007199254740993'']
     = [''1.9007199254740992'', ''1.9007199254740993'']"
  by code_simp+





section \<open>Properties of interleaving refreshes\<close>

lemma arrays_start_batch [simp]: "arrays (start_batch c i h s) = arrays s"
  by (simp add: start_batch_def Let_def)

lemma packages_ref_start_batch [simp]: "packages_ref (start_batch c i h s) = packages_ref s"
  by (simp add: start_batch_def Let_def)

lemma posted_start_batch: "\<exists>rest. posted (start_batch c i h s) = posted s @ rest"
  by (simp add: start_batch_def Let_def)

lemma refresh_resolved:
  "view s \<Longrightarrow>
   step RefreshRequested s
   = s\<lparr>isLoading := True, posted := posted s @ [Loading True], cycles := cycles s @ [Listing]\<rparr>"
  by (simp add: step_def refresh_def)

lemma in_flight_refresh: "view s \<Longrightarrow> in_flight (step RefreshRequested s) = in_flight s + 1"
  by (simp add: refresh_resolved in_flight_def)

lemma in_flight_positive:
  assumes "c < length (cycles s)" "cycles s ! c \<noteq> Finished"
  shows "1 \<le> in_flight s"
proof -
  have "cycles s ! c \<in> set (filter (\<lambda>c. c \<noteq> Finished) (cycles s))"
    using assms by simp
  then have "filter (\<lambda>c. c \<noteq> Finished) (cycles s) \<noteq> []"
    by (metis empty_iff list.set(1))
  then show ?thesis
    by (simp add: in_flight_def Suc_le_eq)
qed

lemma lookup_settled_arrays:
  assumes "c < length (cycles s)" "cycles s ! c = Enriching i h pending" "k < length pending"
  shows "arrays (step (LookupSettled c k response) s)
         = (arrays s)[fst (pending ! k) :=
              (arrays s ! fst (pending ! k))
                [snd (pending ! k) :=
                   apply_latest (checkPackageLatestVersion response)
                     (arrays s ! fst (pending ! k) ! snd (pending ! k))]]"
  using assms by (simp add: step_def lookup_settled_def Let_def)

lemma lookup_settled_last:
  assumes "c < length (cycles s)" "cycles s ! c = Enriching i h pending" "k < length pending"
    "length pending = 1"
  shows "\<exists>rest. posted (step (LookupSettled c k response) s)
           = posted s
             @ [Packages (arrays (step (LookupSettled c k response) s) ! packages_ref s) h]
             @ rest"
proof -
  have empty: "without k pending = []"
    using assms(3,4) by (cases pending) (simp_all add: without_def)
  define s1 where "s1 = s\<lparr>arrays := (arrays s)[fst (pending ! k) :=
              (arrays s ! fst (pending ! k))
                [snd (pending ! k) :=
                   apply_latest (checkPackageLatestVersion response)
                     (arrays s ! fst (pending ! k) ! snd (pending ! k))]]\<rparr>"
  define s2 where "s2 = s1\<lparr>posted := posted s1 @ [Packages (arrays s1 ! packages_ref s1) h]\<rparr>"
  have eq: "step (LookupSettled c k response) s = start_batch c (i + batchSize) h s2"
    using assms(1,2,3) empty by (simp add: step_def lookup_settled_def Let_def s1_def s2_def)
  obtain rest where rest: "posted (start_batch c (i + batchSize) h s2) = posted s2 @ rest"
    using posted_start_batch by blast
  have arr: "arrays (step (LookupSettled c k response) s) = arrays s1"
    by (simp add: eq s2_def)
  have p2: "posted s2 = posted s @ [Packages (arrays s1 ! packages_ref s) h]"
    by (simp add: s2_def s1_def)
  have "posted (step (LookupSettled c k response) s) = posted s2 @ rest"
    by (simp only: eq rest)
  then have "posted (step (LookupSettled c k response) s)
        = posted s @ [Packages (arrays (step (LookupSettled c k response) s) ! packages_ref s) h] @ rest"
    by (simp only: p2 arr append_assoc)
  then show ?thesis
    by blast
qed

text \<open>
  Claim C2, as stated, fails: nothing is cancelled. A first refresh has listed one
  package and waits for its lookup when a second refresh is requested. Both
  invocations are then in flight, the lookup of the first is still pending; when it
  settles, its result is written to the package list and the first invocation posts a
  further \<open>packages\<close> message (and \<open>checkingUpdates\<close>), after the \<open>loading\<close> message of
  the second.
\<close>

theorem second_refresh_leaves_first_running:
  "cycles (run_events (first_refresh @ [RefreshRequested]) resolved_provider)
     = [Enriching 0 False [(1, 0)], Listing]
   \<and> in_flight (run_events (first_refresh @ [RefreshRequested]) resolved_provider) = 2
   \<and> arrays (run_events (first_refresh @ [RefreshRequested, LookupSettled 0 0 (Response (Some ''2.32.3''))])
              resolved_provider) ! 1
       = [\<lparr>name = ''requests'', version = Some ''1.0'', latestVersion = Str ''2.32.3''\<rparr>]
   \<and> posted (run_events (first_refresh @ [RefreshRequested, LookupSettled 0 0 (Response (Some ''2.32.3''))])
              resolved_provider)
       = [Loading True,
          Packages [\<lparr>name = ''requests'', version = Some ''1.0'', latestVersion = Undefined\<rparr>] False,
          Loading False, CheckingUpdates True,
          Loading True,
          Packages [\<lparr>name = ''requests'', version = Some ''1.0'', latestVersion = Str ''2.32.3''\<rparr>] False,
          CheckingUpdates False]"
  by code_simp

text \<open>
  Claim C2, amended. A refresh requested while an earlier one waits for its lookups
  does not supersede it: the request adds an invocation and posts \<open>loading\<close>, and
  leaves the earlier invocation with all its pending lookups, the package arrays and
  \<open>this._packages\<close> as they are, so that at least two refreshes are in flight. A
  lookup of the earlier invocation that settles afterwards still updates its package
  object with its result, and when it is the last of its batch a \<open>packages\<close>
  message is posted for that invocation.
\<close>

theorem refresh_does_not_supersede:
  assumes v: "view s" and c: "c < length (cycles s)"
    and e: "cycles s ! c = Enriching i h pending" and k: "k < length pending"
  shows "cycles (step RefreshRequested s) = cycles s @ [Listing]
       \<and> cycles (step RefreshRequested s) ! c = Enriching i h pending
       \<and> arrays (step RefreshRequested s) = arrays s
       \<and> packages_ref (step RefreshRequested s) = packages_ref s
       \<and> posted (step RefreshRequested s) = posted s @ [Loading True]
       \<and> 2 \<le> in_flight (step RefreshRequested s)
       \<and> arrays (step (LookupSettled c k response) (step RefreshRequested s))
           = (arrays s)[fst (pending ! k) :=
                (arrays s ! fst (pending ! k))
                  [snd (pending ! k) :=
                     apply_latest (checkPackageLatestVersion response)
                       (arrays s ! fst (pending ! k) ! snd (pending ! k))]]
       \<and> (length pending = 1 \<longrightarrow>
            (\<exists>rest. posted (step (LookupSettled c k response) (step RefreshRequested s))
               = posted s
                 @ [Loading True,
                    Packages (arrays (step (LookupSettled c k response) (step RefreshRequested s))
                                ! packages_ref s) h]
                 @ rest))"
proof -
  let ?s = "step RefreshRequested s"
  have r: "?s = s\<lparr>isLoading := True, posted := posted s @ [Loading True],
                     cycles := cycles s @ [Listing]\<rparr>"
    using v by (rule refresh_resolved)
  have c1: "cycles ?s = cycles s @ [Listing]" and c3: "arrays ?s = arrays s"
    and c4: "packages_ref ?s = packages_ref s" and c5: "posted ?s = posted s @ [Loading True]"
    by (simp_all add: r)
  have c2: "cycles ?s ! c = Enriching i h pending"
    using c e by (simp add: c1 nth_append)
  have lc: "c < length (cycles ?s)"
    using c by (simp add: c1)
  have "1 \<le> in_flight s"
    using c e by (intro in_flight_positive[of c]) simp_all
  then have c6: "2 \<le> in_flight ?s"
    using in_flight_refresh[OF v] by simp
  have c7: "arrays (step (LookupSettled c k response) ?s)
           = (arrays s)[fst (pending ! k) :=
                (arrays s ! fst (pending ! k))
                  [snd (pending ! k) :=
                     apply_latest (checkPackageLatestVersion response)
                       (arrays s ! fst (pending ! k) ! snd (pending ! k))]]"
    using lookup_settled_arrays[OF lc c2 k, of response] by (simp only: c3)
  have c8: "length pending = 1 \<longrightarrow>
            (\<exists>rest. posted (step (LookupSettled c k response) ?s)
               = posted s
                 @ [Loading True,
                    Packages (arrays (step (LookupSettled c k response) ?s) ! packages_ref s) h]
                 @ rest)"
  proof
    assume one: "length pending = 1"
    from lookup_settled_last[OF lc c2 k one, of response]
    obtain rest where "posted (step (LookupSettled c k response) ?s)
           = posted ?s
             @ [Packages (arrays (step (LookupSettled c k response) ?s) ! packages_ref ?s) h]
             @ rest"
      by blast
    then have "posted (step (LookupSettled c k response) ?s)
           = posted s
             @ [Loading True,
                Packages (arrays (step (LookupSettled c k response) ?s) ! packages_ref s) h]
             @ rest"
      by (simp add: c4 c5)
    then show "\<exists>rest. posted (step (LookupSettled c k response) ?s)
               = posted s
                 @ [Loading True,
                    Packages (arrays (step (LookupSettled c k response) ?s) ! packages_ref s) h]
                 @ rest"
      by blast
  qed
  from c1 c2 c3 c4 c5 c6 c7 c8 show ?thesis
    by blast
qed

text \<open>
  The theorem at a first refresh that has listed \<open>six\<close>, whose lookup fails after the
  second refresh was requested: the list is posted once more all the same.
\<close>

theorem refresh_does_not_supersede_witness:
  "view (run_events [RefreshRequested, ListSettled 0 (Listed [installed ''six'']) 0] resolved_provider)
   \<and> cycles (run_events [RefreshRequested, ListSettled 0 (Listed [installed ''six'']) 0] resolved_provider) ! 0
       = Enriching 0 False [(1, 0)]
   \<and> 2 \<le> in_flight (step RefreshRequested
         (run_events [RefreshRequested, ListSettled 0 (Listed [installed ''six'']) 0] resolved_provider))
   \<and> (\<exists>rest. posted (step (LookupSettled 0 0 Failed) (step RefreshRequested
         (run_events [RefreshRequested, ListSettled 0 (Listed [installed ''six'']) 0] resolved_provider)))
       = [Loading True, Packages [installed ''six''] False, Loading False, CheckingUpdates True,
          Loading True, Packages [installed ''six''] False] @ rest)"
proof -
  let ?s = "run_events [RefreshRequested, ListSettled 0 (Listed [installed ''six'']) 0] resolved_provider"
  have s: "?s = \<lparr>view = True, arrays = [[], [installed ''six'']], packages_ref = 1, isLoading = False,
      posted = [Loading True, Packages [installed ''six''] False, Loading False, CheckingUpdates True],
      cycles = [Enriching 0 False [(1, 0)]]\<rparr>"
    by code_simp
  have v: "view ?s" and c: "0 < length (cycles ?s)"
    and e: "cycles ?s ! 0 = Enriching 0 False [(1, 0)]" and k: "0 < length [(1::nat, 0::nat)]"
    by (simp_all add: s)
  note inst = refresh_does_not_supersede[OF v c e k, of Failed]
  from inst have two: "2 \<le> in_flight (step RefreshRequested ?s)"
    by blast
  from inst have arr: "arrays (step (LookupSettled 0 0 Failed) (step RefreshRequested ?s))
      = (arrays ?s)[fst ([(1::nat, 0::nat)] ! 0) :=
                (arrays ?s ! fst ([(1::nat, 0::nat)] ! 0))
                  [snd ([(1::nat, 0::nat)] ! 0) :=
                     apply_latest (checkPackageLatestVersion Failed)
                       (arrays ?s ! fst ([(1::nat, 0::nat)] ! 0) ! snd ([(1::nat, 0::nat)] ! 0))]]"
    by blast
  have arr': "arrays (step (LookupSettled 0 0 Failed) (step RefreshRequested ?s)) ! packages_ref ?s
      = [installed ''six'']"
    by (simp add: arr) (simp add: s checkPackageLatestVersion_def apply_latest_def)
  from inst obtain rest where
    "posted (step (LookupSettled 0 0 Failed) (step RefreshRequested ?s))
       = posted ?s
         @ [Loading True,
            Packages (arrays (step (LookupSettled 0 0 Failed) (step RefreshRequested ?s))
                        ! packages_ref ?s) False]
         @ rest"
    by auto
  then have "posted (step (LookupSettled 0 0 Failed) (step RefreshRequested ?s))
       = [Loading True, Packages [installed ''six''] False, Loading False, CheckingUpdates True,
          Loading True, Packages [installed ''six''] False] @ rest"
    by (simp only: arr') (simp add: s)
  with v e two show ?thesis
    by blast
qed
section \<open>Properties of the enrichment phase\<close>

lemma length_without_eq: "k < length xs \<Longrightarrow> length (without k xs) = length xs - 1"
  by (simp add: without_def)

lemma without_empty: "k < length xs \<Longrightarrow> without k xs = [] \<longleftrightarrow> length xs = 1"
  using length_without_eq[of k xs] by (cases xs) auto

lemma subseq_without: "k < length xs \<Longrightarrow> subseq (without k xs) xs"
proof -
  assume k: "k < length xs"
  have "subseq (drop (Suc k) xs) (xs ! k # drop (Suc k) xs)"
    by (rule list_emb_Cons) (rule subseq_order.refl)
  then have "subseq (take k xs @ drop (Suc k) xs) (take k xs @ xs ! k # drop (Suc k) xs)"
    by (simp only: subseq_append')
  then show ?thesis
    using k by (simp only: without_def id_take_nth_drop[symmetric])
qed

lemma pending_member:
  assumes "subseq pending (map (Pair a) [i ..< m])" "k < length pending"
  shows "fst (pending ! k) = a \<and> i \<le> snd (pending ! k) \<and> snd (pending ! k) < m"
proof -
  have "pending ! k \<in> set pending"
    using assms(2) by simp
  with assms(1) obtain y where "y \<in> set (map (Pair a) [i ..< m])" "pending ! k = y"
    by (rule list_emb_set)
  then show ?thesis
    by auto
qed

lemma last_round:
  assumes "5 dvd i" "i < n" "\<not> i + 5 < n"
  shows "(n + 4) div 5 = Suc (i div 5)"
proof -
  from assms(1) obtain m where m: "i = 5 * m"
    by (elim dvdE)
  have "(n + 4) div 5 = Suc m"
    using assms(2,3) m by (intro div_nat_eqI) simp_all
  with m show ?thesis
    by simp
qed

lemma run_events_Cons: "run_events (e # events) s = run_events events (step e s)"
  by (simp add: run_events_def)

lemma run_events_Nil: "run_events [] s = s"
  by (simp add: run_events_def)

lemma returned_before:
  "set before \<subseteq> {Finished} \<Longrightarrow> c < length before \<Longrightarrow> (before @ [x]) ! c = Finished"
proof -
  assume "set before \<subseteq> {Finished}" and c: "c < length before"
  moreover from c have "before ! c \<in> set before"
    by simp
  ultimately have "before ! c = Finished"
    by blast
  with c show ?thesis
    by (simp add: nth_append)
qed

text \<open>The head of the loop and the first message, for the invocation started last.\<close>

lemma start_batch_alone:
  assumes "cycles s = before @ [x]" "packages_ref s = r" "length (arrays s ! r) = n"
  shows "start_batch (length before) i h s
         = (if i < n
            then s\<lparr>cycles := before @ [Enriching i h (map (Pair r) [i ..< min (i + 5) n])]\<rparr>
            else s\<lparr>posted := posted s @ [CheckingUpdates False], cycles := before @ [Finished]\<rparr>)"
  using assms by (simp add: start_batch_def batchSize_def Let_def)

lemma post_listing_alone:
  assumes "cycles s = before @ [x]" "packages_ref s = r" "length (arrays s ! r) = n"
  shows "post_listing (length before) h s
         = (if 0 < n
            then s\<lparr>posted := posted s @ [Packages (arrays s ! r) h, Loading False, CheckingUpdates True],
                   isLoading := False,
                   cycles := before @ [Enriching 0 h (map (Pair r) [0 ..< min 5 n])]\<rparr>
            else s\<lparr>posted := posted s @ [Packages (arrays s ! r) h, Loading False, CheckingUpdates True,
                                       CheckingUpdates False],
                   isLoading := False, cycles := before @ [Finished]\<rparr>)"
  using assms by (auto simp: post_listing_def start_batch_def batchSize_def Let_def)

lemma listed_state:
  assumes "view s0"
  shows "run_events [RefreshRequested, ListSettled (length (cycles s0)) (Listed pkgs) folders] s0
         = (let s1 = s0\<lparr>isLoading := True, posted := posted s0 @ [Loading True],
                         cycles := cycles s0 @ [Listing],
                         arrays := arrays s0 @ [pkgs], packages_ref := length (arrays s0)\<rparr>
            in if pkgs = [] \<and> 0 < folders
               then s1\<lparr>cycles := cycles s0 @ [Searching (folders - 1)]\<rparr>
               else post_listing (length (cycles s0)) False s1)"
  using assms by (simp add: run_events_def step_def refresh_def list_settled_def Let_def)

lemma alone_listed:
  assumes "view s0" "set (cycles s0) \<subseteq> {Finished}"
  shows "alone (cycles s0) (length (arrays s0)) (length (filter is_packages (posted s0)))
           (length pkgs)
           (run_events [RefreshRequested, ListSettled (length (cycles s0)) (Listed pkgs) folders] s0)"
proof -
  define s1 where "s1 = s0\<lparr>isLoading := True, posted := posted s0 @ [Loading True],
                         cycles := cycles s0 @ [Listing],
                         arrays := arrays s0 @ [pkgs], packages_ref := length (arrays s0)\<rparr>"
  have s1: "cycles s1 = cycles s0 @ [Listing]" "packages_ref s1 = length (arrays s0)"
      "length (arrays s1 ! length (arrays s0)) = length pkgs"
    by (simp_all add: s1_def)
  show ?thesis
    unfolding listed_state[OF assms(1)] s1_def[symmetric] Let_def post_listing_alone[OF s1]
    using assms by (auto simp: alone_def s1_def)
qed

lemma outstanding_listed:
  assumes "view s0"
  shows "outstanding
           (run_events [RefreshRequested, ListSettled (length (cycles s0)) (Listed pkgs) folders] s0)
         = length pkgs"
proof -
  define s1 where "s1 = s0\<lparr>isLoading := True, posted := posted s0 @ [Loading True],
                         cycles := cycles s0 @ [Listing],
                         arrays := arrays s0 @ [pkgs], packages_ref := length (arrays s0)\<rparr>"
  have s1: "cycles s1 = cycles s0 @ [Listing]" "packages_ref s1 = length (arrays s0)"
      "length (arrays s1 ! length (arrays s0)) = length pkgs"
    by (simp_all add: s1_def)
  show ?thesis
    unfolding listed_state[OF assms(1)] s1_def[symmetric] Let_def post_listing_alone[OF s1]
    by (auto simp: outstanding_def s1_def batchSize_def)
qed

text \<open>Events that do not concern the invocation leave the provider as it is.\<close>

lemma list_settled_alone: "alone before r m n s \<Longrightarrow> step (ListSettled c l f) s = s"
proof -
  assume a: "alone before r m n s"
  then obtain x where x: "cycles s = before @ [x]" "x \<noteq> Listing" "set before \<subseteq> {Finished}"
    by (auto simp: alone_def)
  have "cycles s ! c \<noteq> Listing" if "c < length (cycles s)"
  proof (cases "c < length before")
    case True
    with x show ?thesis
      by (simp add: returned_before)
  next
    case False
    with that x have "c = length before"
      by simp
    with x show ?thesis
      by simp
  qed
  then show ?thesis
    by (auto simp: step_def list_settled_def)
qed

lemma other_invocation:
  assumes "alone before r m n s" "c \<noteq> length before"
  shows "step (StatSettled c found) s = s" "step (LookupSettled c k response) s = s"
proof -
  from assms(1) obtain x where x: "cycles s = before @ [x]" "set before \<subseteq> {Finished}"
    by (auto simp: alone_def)
  have "cycles s ! c = Finished" if "c < length (cycles s)"
  proof -
    from that assms(2) x have "c < length before"
      by simp
    with x show ?thesis
      by (simp add: returned_before)
  qed
  then show "step (StatSettled c found) s = s" "step (LookupSettled c k response) s = s"
    by (auto simp: step_def stat_settled_def lookup_settled_def)
qed

lemma stat_settled_alone:
  assumes "alone before r m n s"
  shows "alone before r m n (step (StatSettled c found) s)"
proof (cases "c = length before \<and> (\<exists>rest. cycles s = before @ [Searching rest])")
  case False
  have "step (StatSettled c found) s = s"
  proof (cases "c = length before")
    case False
    with assms show ?thesis
      by (rule other_invocation)
  next
    case True
    with False assms show ?thesis
      by (auto simp: alone_def step_def stat_settled_def)
  qed
  with assms show ?thesis
    by simp
next
  case True
  then obtain rest where c: "c = length before" and rest: "cycles s = before @ [Searching rest]"
    by blast
  with assms have n: "n = 0" and facts: "view s" "packages_ref s = r" "r < length (arrays s)"
      "length (arrays s ! r) = n" "length (filter is_packages (posted s)) = m"
      "set before \<subseteq> {Finished}"
    by (auto simp: alone_def)
  show ?thesis
  proof (cases "found \<or> rest = 0")
    case True
    then have "step (StatSettled c found) s = post_listing (length before) found s"
      using rest c by (auto simp: step_def stat_settled_def)
    then show ?thesis
      using facts n by (simp add: post_listing_alone[OF rest facts(2,4)] alone_def)
  next
    case False
    then have "step (StatSettled c found) s = s\<lparr>cycles := before @ [Searching (rest - 1)]\<rparr>"
      using rest c by (auto simp: step_def stat_settled_def)
    then show ?thesis
      using facts n by (simp add: alone_def)
  qed
qed

text \<open>The three outcomes of a lookup that settles while the invocation runs alone.\<close>

lemma lookup_settled_more:
  assumes "cycles s = before @ [Enriching i h pending]" "k < length pending" "1 < length pending"
  shows "step (LookupSettled (length before) k response) s
         = s\<lparr>arrays := (arrays s)[fst (pending ! k) :=
                 (arrays s ! fst (pending ! k))
                   [snd (pending ! k) :=
                      apply_latest (checkPackageLatestVersion response)
                        (arrays s ! fst (pending ! k) ! snd (pending ! k))]],
              cycles := before @ [Enriching i h (without k pending)]\<rparr>"
  using assms by (simp add: step_def lookup_settled_def Let_def without_empty)

lemma lookup_settled_final:
  assumes "cycles s = before @ [Enriching i h pending]" "k < length pending" "length pending = 1"
    "packages_ref s = r" "r < length (arrays s)" "length (arrays s ! r) = n"
    "fst (pending ! k) = r"
  shows "step (LookupSettled (length before) k response) s
         = (let A = (arrays s)[r :=
                 (arrays s ! r)
                   [snd (pending ! k) :=
                      apply_latest (checkPackageLatestVersion response)
                        (arrays s ! r ! snd (pending ! k))]]
            in if i + 5 < n
               then s\<lparr>arrays := A, posted := posted s @ [Packages (A ! r) h],
                      cycles := before
                        @ [Enriching (i + 5) h (map (Pair r) [i + 5 ..< min (i + 5 + 5) n])]\<rparr>
               else s\<lparr>arrays := A, posted := posted s @ [Packages (A ! r) h, CheckingUpdates False],
                      cycles := before @ [Finished]\<rparr>)"
proof -
  define A where "A = (arrays s)[r :=
                 (arrays s ! r)
                   [snd (pending ! k) :=
                      apply_latest (checkPackageLatestVersion response)
                        (arrays s ! r ! snd (pending ! k))]]"
  define s2 where "s2 = s\<lparr>arrays := A, posted := posted s @ [Packages (A ! r) h]\<rparr>"
  have empty: "without k pending = []"
    using assms(2,3) by (simp add: without_empty)
  have eq: "step (LookupSettled (length before) k response) s
            = start_batch (length before) (i + 5) h s2"
    using assms(1,2,4,7) empty
    by (simp add: step_def lookup_settled_def Let_def s2_def A_def batchSize_def)
  have s2: "cycles s2 = before @ [Enriching i h pending]" "packages_ref s2 = r"
      "length (arrays s2 ! r) = n"
    using assms(1,4,5,6) by (simp_all add: s2_def A_def)
  show ?thesis
    unfolding eq start_batch_alone[OF s2] by (simp add: s2_def A_def Let_def)
qed

lemma lookup_settled_alone:
  fixes response :: "string option http"
  assumes a: "alone before r m n s" and e: "cycles s = before @ [Enriching i h pending]"
    and k: "k < length pending"
  defines "A \<equiv> (arrays s)[r :=
                 (arrays s ! r)
                   [snd (pending ! k) :=
                      apply_latest (checkPackageLatestVersion response)
                        (arrays s ! r ! snd (pending ! k))]]"
  shows "step (LookupSettled (length before) k response) s
         = (if 1 < length pending
            then s\<lparr>arrays := A, cycles := before @ [Enriching i h (without k pending)]\<rparr>
            else if i + 5 < n
            then s\<lparr>arrays := A, posted := posted s @ [Packages (A ! r) h],
                   cycles := before
                     @ [Enriching (i + 5) h (map (Pair r) [i + 5 ..< min (i + 5 + 5) n])]\<rparr>
            else s\<lparr>arrays := A, posted := posted s @ [Packages (A ! r) h, CheckingUpdates False],
                   cycles := before @ [Finished]\<rparr>)"
proof -
  from a e have facts: "packages_ref s = r" "r < length (arrays s)" "length (arrays s ! r) = n"
    and sub: "subseq pending (map (Pair r) [i ..< min (i + 5) n])"
    by (auto simp: alone_def)
  from pending_member[OF sub k] have f: "fst (pending ! k) = r"
    by simp
  show ?thesis
  proof (cases "1 < length pending")
    case True
    then show ?thesis
      using lookup_settled_more[OF e k True, of response] f by (simp add: A_def)
  next
    case False
    with k have one: "length pending = 1"
      by simp
    show ?thesis
      using lookup_settled_final[OF e k one facts f, of response] one
      by (simp add: A_def Let_def)
  qed
qed

lemma settles_iff:
  assumes "alone before r m n s"
  shows "settles (LookupSettled c k response) s
         \<longleftrightarrow> c = length before
             \<and> (\<exists>i h pending. cycles s = before @ [Enriching i h pending] \<and> k < length pending)"
  using assms by (auto simp: alone_def settles_def)

lemma lookup_idle:
  assumes "alone before r m n s" "\<not> settles (LookupSettled c k response) s"
  shows "step (LookupSettled c k response) s = s"
proof (cases "c = length before")
  case False
  with assms(1) show ?thesis
    by (rule other_invocation)
next
  case True
  with assms show ?thesis
    unfolding settles_iff[OF assms(1)]
    by (auto simp: alone_def step_def lookup_settled_def)
qed

lemma lookup_alone:
  assumes a: "alone before r m n s"
  shows "alone before r m n (step (LookupSettled c k response) s)"
proof (cases "settles (LookupSettled c k response) s")
  case False
  with a have "step (LookupSettled c k response) s = s"
    by (rule lookup_idle)
  with a show ?thesis
    by simp
next
  case True
  then obtain i h pending where c: "c = length before"
    and e: "cycles s = before @ [Enriching i h pending]" and k: "k < length pending"
    unfolding settles_iff[OF a] by blast
  from a e have facts: "view s" "packages_ref s = r" "r < length (arrays s)"
      "length (arrays s ! r) = n" "i < n" "5 dvd i"
      "length (filter is_packages (posted s)) = m + 1 + i div 5" "set before \<subseteq> {Finished}"
    and sub: "subseq pending (map (Pair r) [i ..< min (i + 5) n])"
    by (auto simp: alone_def)
  note eq = lookup_settled_alone[OF a e k, of response]
  show ?thesis
  proof (cases "1 < length pending")
    case True
    then have ne: "without k pending \<noteq> []"
      using k by (simp add: without_empty)
    have "subseq (without k pending) (map (Pair r) [i ..< min (i + 5) n])"
      using subseq_without[OF k] sub by (rule subseq_order.trans)
    with True ne facts show ?thesis
      unfolding c eq by (simp add: alone_def)
  next
    case False
    show ?thesis
    proof (cases "i + 5 < n")
      case True
      have "subseq (map (Pair r) [i + 5 ..< min (i + 5 + 5) n])
              (map (Pair r) [i + 5 ..< min (i + 5 + 5) n])"
        by (rule subseq_order.refl)
      with True False facts show ?thesis
        unfolding c eq by (simp add: alone_def)
    next
      case last: False
      have "(n + 4) div 5 = Suc (i div 5)"
        using facts(6,5) last by (rule last_round)
      with last False facts show ?thesis
        unfolding c eq by (simp add: alone_def)
    qed
  qed
qed

lemma alone_step:
  assumes "alone before r m n s" "e \<noteq> RefreshRequested"
  shows "alone before r m n (step e s)"
proof (cases e)
  case RefreshRequested
  with assms(2) show ?thesis by simp
next
  case (ListSettled c l f)
  with assms(1) show ?thesis by (simp add: list_settled_alone)
next
  case (StatSettled c found)
  with assms(1) show ?thesis by (simp add: stat_settled_alone)
next
  case (LookupSettled c k response)
  with assms(1) show ?thesis by (simp add: lookup_alone)
qed

lemma alone_run:
  "alone before r m n s \<Longrightarrow> RefreshRequested \<notin> set events
   \<Longrightarrow> alone before r m n (run_events events s)"
proof (induction events arbitrary: s)
  case Nil
  then show ?case by (simp add: run_events_Nil)
next
  case (Cons e events)
  from Cons.prems have "alone before r m n (step e s)"
    by (intro alone_step) auto
  then have "alone before r m n (run_events events (step e s))"
    using Cons.prems(2) by (intro Cons.IH) auto
  then show ?case
    by (simp add: run_events_Cons)
qed

text \<open>Every lookup that settles leaves one lookup less outstanding.\<close>

lemma outstanding_step:
  assumes a: "alone before r m n s" and e: "cycles s = before @ [Enriching i h pending]"
    and k: "k < length pending"
  shows "Suc (outstanding (step (LookupSettled (length before) k response) s)) = outstanding s"
proof -
  from a e have facts: "packages_ref s = r" "r < length (arrays s)" "length (arrays s ! r) = n"
      "i < n"
    by (auto simp: alone_def)
  note eq = lookup_settled_alone[OF a e k, of response]
  show ?thesis
  proof (cases "1 < length pending")
    case True
    with facts e k show ?thesis
      unfolding eq by (simp add: outstanding_def length_without_eq batchSize_def)
  next
    case False
    with k have one: "length pending = 1"
      by simp
    with facts e show ?thesis
      unfolding eq by (auto simp: outstanding_def batchSize_def)
  qed
qed

lemma lookup_cycles:
  assumes a: "alone before r m n s" and e: "cycles s = before @ [Enriching i h pending]"
    and k: "k < length pending"
  shows "(\<exists>i' pending'. cycles (step (LookupSettled (length before) k response) s)
                           = before @ [Enriching i' h pending'])
       \<or> cycles (step (LookupSettled (length before) k response) s) = before @ [Finished]"
  unfolding lookup_settled_alone[OF a e k] by simp

lemma outstanding_Finished: "cycles s = before @ [Finished] \<Longrightarrow> outstanding s = 0"
  by (simp add: outstanding_def)

lemma finish_run:
  assumes "alone before r m n s" "cycles s = before @ [Enriching i h pending]"
    "outstanding s = l"
  shows "cycles (run_events (replicate l (LookupSettled (length before) 0 response)) s)
         = before @ [Finished]"
  using assms
proof (induction l arbitrary: s i pending)
  case 0
  then have "pending = []"
    by (simp add: outstanding_def)
  with 0 show ?case
    by (simp add: alone_def)
next
  case (Suc l)
  let ?s = "step (LookupSettled (length before) 0 response) s"
  from Suc.prems(1,2) have k: "0 < length pending"
    by (auto simp: alone_def)
  have a: "alone before r m n ?s"
    using Suc.prems(1) by (rule lookup_alone)
  have l: "outstanding ?s = l"
    using outstanding_step[OF Suc.prems(1,2) k, of response] Suc.prems(3) by simp
  from lookup_cycles[OF Suc.prems(1,2) k, of response]
  show ?case
  proof
    assume "\<exists>i' pending'. cycles ?s = before @ [Enriching i' h pending']"
    then obtain i' pending' where "cycles ?s = before @ [Enriching i' h pending']"
      by blast
    with a l
    have "cycles (run_events (replicate l (LookupSettled (length before) 0 response)) ?s)
            = before @ [Finished]"
      by (intro Suc.IH)
    then show ?thesis
      by (simp add: run_events_Cons)
  next
    assume fin: "cycles ?s = before @ [Finished]"
    then have "l = 0"
      using l by (simp add: outstanding_Finished)
    with fin show ?thesis
      by (simp add: run_events_Cons run_events_Nil)
  qed
qed

lemma outstanding_stat:
  assumes "alone before r m n s"
  shows "outstanding (step (StatSettled c found) s) = outstanding s"
proof (cases "c = length before \<and> (\<exists>rest. cycles s = before @ [Searching rest])")
  case False
  have "step (StatSettled c found) s = s"
  proof (cases "c = length before")
    case False
    with assms show ?thesis
      by (rule other_invocation)
  next
    case True
    with False assms show ?thesis
      by (auto simp: alone_def step_def stat_settled_def)
  qed
  then show ?thesis
    by simp
next
  case True
  with assms have n: "n = 0"
    by (auto simp: alone_def)
  have "alone before r m n (step (StatSettled c found) s)"
    using assms by (rule stat_settled_alone)
  with n have "outstanding (step (StatSettled c found) s) = 0"
    by (auto simp: alone_def outstanding_def)
  moreover from True have "outstanding s = 0"
    by (auto simp: outstanding_def)
  ultimately show ?thesis
    by simp
qed

lemma outstanding_event:
  assumes a: "alone before r m n s" and e: "e \<noteq> RefreshRequested"
  shows "outstanding (step e s) + (if settles e s then 1 else 0) = outstanding s"
proof (cases e)
  case RefreshRequested
  with e show ?thesis by simp
next
  case (ListSettled c l f)
  with a show ?thesis
    by (simp add: list_settled_alone settles_def)
next
  case (StatSettled c found)
  with a show ?thesis
    by (simp add: outstanding_stat settles_def)
next
  case l: (LookupSettled c k response)
  show ?thesis
  proof (cases "settles e s")
    case False
    with a l show ?thesis
      by (simp add: lookup_idle)
  next
    case True
    with l obtain i h pending where "c = length before"
        "cycles s = before @ [Enriching i h pending]" "k < length pending"
      unfolding l settles_iff[OF a] by blast
    with a l True show ?thesis
      using outstanding_step[of before r m n s i h pending k response] by simp
  qed
qed

lemma outstanding_run:
  "alone before r m n s \<Longrightarrow> RefreshRequested \<notin> set events
   \<Longrightarrow> outstanding (run_events events s) + settled_lookups events s = outstanding s"
proof (induction events arbitrary: s)
  case Nil
  then show ?case by (simp add: run_events_Nil)
next
  case (Cons e events)
  from Cons.prems have e: "e \<noteq> RefreshRequested"
    by auto
  with Cons.prems(1) have a: "alone before r m n (step e s)"
    by (intro alone_step)
  have "outstanding (run_events events (step e s)) + settled_lookups events (step e s)
          = outstanding (step e s)"
    using a Cons.prems(2) by (intro Cons.IH) auto
  with outstanding_event[OF Cons.prems(1) e] show ?case
    by (simp add: run_events_Cons)
qed

text \<open>
  Claim C1, as stated, fails when refreshes interleave: the loop reads
  \<open>this._packages\<close> anew in every pass, and a later refresh replaces it. A first
  refresh has listed one package (one batch, so one round); a second refresh is
  requested and lists seven before the lookup of the first settles. When that lookup
  settles, the first invocation posts its snapshot and then, at index 5, finds
  \<open>this._packages\<close> to have seven elements: it starts a second round, with lookups for
  the packages 5 and 6 of the second listing, and posts a second incremental
  \<open>packages\<close> message when these have settled. By then four \<open>packages\<close> messages are
  posted, two of them for batches of the first invocation, and the second invocation
  still waits for its first batch.
\<close>

theorem interleaved_refresh_extra_round:
  "cycles (run_events (first_refresh
            @ [RefreshRequested, ListSettled 1 (Listed seven_packages) 0,
               LookupSettled 0 0 (Response (Some ''2.32.3''))]) resolved_provider)
     = [Enriching 5 False [(2, 5), (2, 6)],
        Enriching 0 False [(2, 0), (2, 1), (2, 2), (2, 3), (2, 4)]]
   \<and> cycles (run_events (first_refresh
            @ [RefreshRequested, ListSettled 1 (Listed seven_packages) 0,
               LookupSettled 0 0 (Response (Some ''2.32.3'')),
               LookupSettled 0 1 Failed, LookupSettled 0 0 Failed]) resolved_provider)
     = [Finished, Enriching 0 False [(2, 0), (2, 1), (2, 2), (2, 3), (2, 4)]]
   \<and> map is_packages (posted (run_events (first_refresh
            @ [RefreshRequested, ListSettled 1 (Listed seven_packages) 0,
               LookupSettled 0 0 (Response (Some ''2.32.3'')),
               LookupSettled 0 1 Failed, LookupSettled 0 0 Failed]) resolved_provider))
     = [False, True, False, False, False, True, False, False, True, True, False]
   \<and> (length [installed ''requests''] + 4) div 5 = 1"
  by code_simp

text \<open>
  Claim C1, amended: for a refresh that no other refresh interleaves with. The
  refresh is requested when every earlier invocation has returned (\<open>s0\<close>), it lists
  \<open>n\<close> packages, and then any events arrive except a further request: lookups
  settling in any order and with any answer, events for other invocations, events
  that settle nothing. In the state \<open>s\<close> reached, \<open>this._packages\<close> is still the
  listed array of \<open>n\<close> packages, and the lookups that have settled and those still
  outstanding are \<open>n\<close> together. The invocation searches for \<open>requirements.txt\<close> (then
  \<open>n = 0\<close>); or it has returned, all lookups have settled, and it has posted one
  \<open>packages\<close> message for the listing and exactly \<open>(n + 4) div 5\<close> more, one per
  batch; or it waits for the batch at index \<open>i\<close>, a multiple of 5 below \<open>n\<close>. Then
  \<^item> the pending lookups are lookups of the packages \<open>i\<close> to \<open>min (i + 5) n - 1\<close>, each
    at most once, at least one is pending, and one \<open>packages\<close> message has been
    posted for the listing and one for each of the \<open>i div 5\<close> batches before;
  \<^item> whichever pending lookup settles next, with whatever answer, only the record
    of its package changes, to the result of \<open>apply_latest\<close>;
  \<^item> while other lookups of the batch are pending, nothing is posted and no lookup
    of the next batch is issued;
  \<^item> when the last pending lookup settles, \<open>this._packages\<close> is posted once, and
    either the lookups of all packages \<open>i + 5\<close> to \<open>min (i + 10) n - 1\<close> are issued
    together, or, with no package left, \<open>checkingUpdates\<close> is posted and the
    invocation returns;
  \<^item> the invocation returns when the outstanding lookups settle, even if all fail.
\<close>

theorem enrichment_alone:
  fixes s0 :: provider and pkgs :: "PackageInfo list" and folders :: nat
    and events :: "input list"
  assumes resolved: "view s0" and idle: "\<forall>c \<in> set (cycles s0). c = Finished"
    and quiet: "RefreshRequested \<notin> set events"
  defines "c \<equiv> length (cycles s0)"
  defines "r \<equiv> length (arrays s0)"
  defines "m \<equiv> length (filter is_packages (posted s0))"
  defines "n \<equiv> length pkgs"
  defines "listed \<equiv> run_events [RefreshRequested, ListSettled c (Listed pkgs) folders] s0"
  defines "s \<equiv> run_events events listed"
  shows "packages_ref s = r \<and> length (arrays s ! r) = n
    \<and> outstanding s + settled_lookups events listed = n
    \<and> ((\<exists>rest. cycles s = cycles s0 @ [Searching rest] \<and> n = 0
            \<and> length (filter is_packages (posted s)) = m)
       \<or> (cycles s = cycles s0 @ [Finished] \<and> outstanding s = 0
           \<and> length (filter is_packages (posted s)) = m + 1 + (n + 4) div 5)
       \<or> (\<exists>i h pending. cycles s = cycles s0 @ [Enriching i h pending]
             \<and> i < n \<and> 5 dvd i \<and> pending \<noteq> []
             \<and> subseq pending (map (Pair r) [i ..< min (i + 5) n])
             \<and> length (filter is_packages (posted s)) = m + 1 + i div 5
             \<and> cycles (run_events (replicate (outstanding s) (LookupSettled c 0 Failed)) s)
                 = cycles s0 @ [Finished]
             \<and> (\<forall>k response. k < length pending \<longrightarrow>
                  i \<le> snd (pending ! k) \<and> snd (pending ! k) < min (i + 5) n
                  \<and> arrays (step (LookupSettled c k response) s)
                      = (arrays s)[r := (arrays s ! r)[snd (pending ! k) :=
                           apply_latest (checkPackageLatestVersion response)
                             (arrays s ! r ! snd (pending ! k))]]
                  \<and> (1 < length pending \<longrightarrow>
                        cycles (step (LookupSettled c k response) s)
                          = cycles s0 @ [Enriching i h (without k pending)]
                        \<and> posted (step (LookupSettled c k response) s) = posted s)
                  \<and> (length pending = 1 \<and> i + 5 < n \<longrightarrow>
                        cycles (step (LookupSettled c k response) s)
                          = cycles s0
                            @ [Enriching (i + 5) h (map (Pair r) [i + 5 ..< min (i + 10) n])]
                        \<and> posted (step (LookupSettled c k response) s)
                          = posted s @ [Packages (arrays (step (LookupSettled c k response) s) ! r) h])
                  \<and> (length pending = 1 \<and> n \<le> i + 5 \<longrightarrow>
                        cycles (step (LookupSettled c k response) s) = cycles s0 @ [Finished]
                        \<and> posted (step (LookupSettled c k response) s)
                          = posted s @ [Packages (arrays (step (LookupSettled c k response) s) ! r) h,
                                        CheckingUpdates False]))))"
proof -
  from idle have before: "set (cycles s0) \<subseteq> {Finished}"
    by blast
  have a0: "alone (cycles s0) r m n listed"
    unfolding c_def r_def m_def n_def listed_def using resolved before by (rule alone_listed)
  then have a: "alone (cycles s0) r m n s"
    unfolding s_def using quiet by (rule alone_run)
  have "outstanding s + settled_lookups events listed = outstanding listed"
    unfolding s_def using a0 quiet by (rule outstanding_run)
  then have out: "outstanding s + settled_lookups events listed = n"
    by (simp add: listed_def c_def n_def outstanding_listed[OF resolved])
  from a have basics: "packages_ref s = r" "r < length (arrays s)" "length (arrays s ! r) = n"
    by (simp_all add: alone_def)
  from a consider
      (searching) rest where "cycles s = cycles s0 @ [Searching rest]" "n = 0"
        "length (filter is_packages (posted s)) = m"
    | (enriching) i h pending where "cycles s = cycles s0 @ [Enriching i h pending]" "i < n"
        "5 dvd i" "pending \<noteq> []" "subseq pending (map (Pair r) [i ..< min (i + 5) n])"
        "length (filter is_packages (posted s)) = m + 1 + i div 5"
    | (finished) "cycles s = cycles s0 @ [Finished]"
        "length (filter is_packages (posted s)) = m + 1 + (n + 4) div 5"
    unfolding alone_def by blast
  then show ?thesis
  proof cases
    case searching
    with basics out show ?thesis
      by blast
  next
    case finished
    with basics out outstanding_Finished[of s "cycles s0"] show ?thesis
      by blast
  next
    case enriching
    have run: "cycles (run_events (replicate (outstanding s) (LookupSettled c 0 Failed)) s)
                 = cycles s0 @ [Finished]"
      unfolding c_def using a enriching(1) by (rule finish_run) simp
    have each: "i \<le> snd (pending ! k) \<and> snd (pending ! k) < min (i + 5) n
        \<and> arrays (step (LookupSettled c k response) s)
            = (arrays s)[r := (arrays s ! r)[snd (pending ! k) :=
                 apply_latest (checkPackageLatestVersion response)
                   (arrays s ! r ! snd (pending ! k))]]
        \<and> (1 < length pending \<longrightarrow>
              cycles (step (LookupSettled c k response) s)
                = cycles s0 @ [Enriching i h (without k pending)]
              \<and> posted (step (LookupSettled c k response) s) = posted s)
        \<and> (length pending = 1 \<and> i + 5 < n \<longrightarrow>
              cycles (step (LookupSettled c k response) s)
                = cycles s0 @ [Enriching (i + 5) h (map (Pair r) [i + 5 ..< min (i + 10) n])]
              \<and> posted (step (LookupSettled c k response) s)
                = posted s @ [Packages (arrays (step (LookupSettled c k response) s) ! r) h])
        \<and> (length pending = 1 \<and> n \<le> i + 5 \<longrightarrow>
              cycles (step (LookupSettled c k response) s) = cycles s0 @ [Finished]
              \<and> posted (step (LookupSettled c k response) s)
                = posted s @ [Packages (arrays (step (LookupSettled c k response) s) ! r) h,
                              CheckingUpdates False])"
      if k: "k < length pending" for k response
    proof -
      note eq = lookup_settled_alone[OF a enriching(1) k, of response, folded c_def]
      from pending_member[OF enriching(5) k]
      have j: "i \<le> snd (pending ! k)" "snd (pending ! k) < min (i + 5) n"
        by simp_all
      have arr: "arrays (step (LookupSettled c k response) s)
            = (arrays s)[r := (arrays s ! r)[snd (pending ! k) :=
                 apply_latest (checkPackageLatestVersion response)
                   (arrays s ! r ! snd (pending ! k))]]"
        unfolding eq by simp
      have more: "1 < length pending \<longrightarrow>
              cycles (step (LookupSettled c k response) s)
                = cycles s0 @ [Enriching i h (without k pending)]
              \<and> posted (step (LookupSettled c k response) s) = posted s"
        unfolding eq by simp
      have nxt: "length pending = 1 \<and> i + 5 < n \<longrightarrow>
              cycles (step (LookupSettled c k response) s)
                = cycles s0 @ [Enriching (i + 5) h (map (Pair r) [i + 5 ..< min (i + 10) n])]
              \<and> posted (step (LookupSettled c k response) s)
                = posted s @ [Packages (arrays (step (LookupSettled c k response) s) ! r) h]"
        unfolding eq using basics by (simp add: add.assoc)
      have fin: "length pending = 1 \<and> n \<le> i + 5 \<longrightarrow>
              cycles (step (LookupSettled c k response) s) = cycles s0 @ [Finished]
              \<and> posted (step (LookupSettled c k response) s)
                = posted s @ [Packages (arrays (step (LookupSettled c k response) s) ! r) h,
                              CheckingUpdates False]"
        unfolding eq using basics by simp
      from j arr more nxt fin show ?thesis
        by blast
    qed
    from basics out enriching run each show ?thesis
      by blast
  qed
qed

text \<open>
  The theorem at a second refresh, requested when a first one has returned, that
  lists twelve packages, at the moment when four lookups of its first batch have
  settled, out of order and one of them failed: eight lookups are outstanding and
  only the listing is posted; the last lookup of the batch settling starts the batch
  of the packages 5 to 9; the eight outstanding lookups settling, even all failing,
  end the refresh, after the batches of 5, 5 and 2 packages and three incremental
  \<open>packages\<close> messages.
\<close>

theorem enrichment_alone_witness:
  "view refreshed_once \<and> cycles refreshed_once = [Finished]
   \<and> RefreshRequested \<notin> set four_settled
   \<and> cycles (run_events four_settled listed_twelve) = [Finished, Enriching 0 False [(2, 1)]]
   \<and> outstanding (run_events four_settled listed_twelve) = 8
   \<and> length (filter is_packages (posted refreshed_once)) = 2
   \<and> length (filter is_packages (posted (run_events four_settled listed_twelve))) = 3
   \<and> cycles (step (LookupSettled 1 0 Failed) (run_events four_settled listed_twelve))
       = [Finished, Enriching 5 False [(2, 5), (2, 6), (2, 7), (2, 8), (2, 9)]]
   \<and> cycles (run_events (replicate 6 (LookupSettled 1 0 Failed))
               (run_events four_settled listed_twelve))
       = [Finished, Enriching 10 False [(2, 10), (2, 11)]]
   \<and> cycles (run_events (replicate 8 (LookupSettled 1 0 Failed))
               (run_events four_settled listed_twelve)) = [Finished, Finished]
   \<and> length (filter is_packages (posted (run_events (replicate 8 (LookupSettled 1 0 Failed))
               (run_events four_settled listed_twelve)))) = 6"
proof -
  let ?s = "run_events four_settled listed_twelve"
  have s0: "refreshed_once
      = \<lparr>view = True,
         arrays = [[], [\<lparr>name = ''requests'', version = Some ''1.0'', latestVersion = Str ''2.32.3''\<rparr>]],
         packages_ref = 1, isLoading = False,
         posted = [Loading True,
           Packages [\<lparr>name = ''requests'', version = Some ''1.0'', latestVersion = Undefined\<rparr>] False,
           Loading False, CheckingUpdates True,
           Packages [\<lparr>name = ''requests'', version = Some ''1.0'', latestVersion = Str ''2.32.3''\<rparr>] False,
           CheckingUpdates False],
         cycles = [Finished]\<rparr>"
    by code_simp
  have resolved: "view refreshed_once" and idle: "\<forall>c \<in> set (cycles refreshed_once). c = Finished"
    and before: "cycles refreshed_once = [Finished]" "length (cycles refreshed_once) = 1"
      "length (arrays refreshed_once) = 2"
      "length (filter is_packages (posted refreshed_once)) = 2"
    by (simp_all add: s0)
  have quiet: "RefreshRequested \<notin> set four_settled"
    by (simp add: four_settled_def)
  have cyc: "cycles ?s = [Finished, Enriching 0 False [(2, 1)]]"
    by code_simp
  have four: "settled_lookups four_settled listed_twelve = 4"
    by code_simp
  have n: "length twelve_packages = 12"
    by (simp add: twelve_packages_def)
  have six: "cycles (run_events (replicate 6 (LookupSettled 1 0 Failed)) ?s)
       = [Finished, Enriching 10 False [(2, 10), (2, 11)]]"
    by code_simp
  have posts: "length (filter is_packages (posted (run_events (replicate 8 (LookupSettled 1 0 Failed))
               ?s))) = 6"
    by code_simp
  note inst = enrichment_alone[OF resolved idle quiet, where pkgs = twelve_packages and folders = 0,
      unfolded before(2), folded listed_twelve_def, unfolded before(1,3,4) n]
  from inst have "outstanding ?s + settled_lookups four_settled listed_twelve = 12"
    by blast
  with four have out: "outstanding ?s = 8"
    by simp
  from inst cyc have rest: "length (filter is_packages (posted ?s)) = 2 + 1 + 0 div 5
      \<and> cycles (run_events (replicate (outstanding ?s) (LookupSettled 1 0 Failed)) ?s)
          = [Finished] @ [Finished]
      \<and> (\<forall>k response. k < length [(2::nat, 1::nat)] \<longrightarrow>
            (length [(2::nat, 1::nat)] = 1 \<and> 0 + 5 < (12::nat) \<longrightarrow>
               cycles (step (LookupSettled 1 k response) ?s)
                 = [Finished] @ [Enriching (0 + 5) False (map (Pair 2) [0 + 5 ..< min (0 + 10) 12])]))"
    by auto
  then have nxt: "cycles (step (LookupSettled 1 0 Failed) ?s)
       = [Finished, Enriching 5 False [(2, 5), (2, 6), (2, 7), (2, 8), (2, 9)]]"
    by (simp add: upt_rec)
  from rest out have fin: "cycles (run_events (replicate 8 (LookupSettled 1 0 Failed)) ?s)
       = [Finished, Finished]"
    by simp
  from rest have count: "length (filter is_packages (posted ?s)) = 3"
    by simp
  from resolved before(1,4) quiet cyc out count nxt six fin posts show ?thesis
    by blast
qed

end
